theory Spec2Isabelle
  imports Main
begin

section \<open>JavaScript strings\<close>

text \<open>
  A JavaScript string is a sequence of UTF-16 code units. A code unit is modelled as an
  integer (those of the language are 0 to 65535) and a string as a list of them, so that
  every character the source mentions (\<open>\<section>\<close> is 167, the en dash is 8211) and every
  character an input may hold is representable. \<open>js\<close> embeds an ASCII literal.
\<close>

type_synonym jsstring = "int list"

definition js :: "string \<Rightarrow> jsstring" where
  "js s = map of_char s"

text \<open>The character \<open>\<section>\<close> (U+00A7).\<close>

definition SECT :: int where
  "SECT = 167"

text \<open>\<open>\d\<close>: the ASCII digits.\<close>

definition isDigit :: "int \<Rightarrow> bool" where
  "isDigit c = (48 \<le> c \<and> c \<le> 57)"

text \<open>
  \<open>\s\<close> and the characters removed by \<open>String.prototype.trim\<close>: ECMAScript WhiteSpace
  (TAB, VT, FF, SP, NBSP, ZWNBSP and the Unicode category Zs) and LineTerminator
  (LF, CR, LS, PS).
\<close>

definition isSpace :: "int \<Rightarrow> bool" where
  "isSpace c = (c = 9 \<or> c = 10 \<or> c = 11 \<or> c = 12 \<or> c = 13 \<or> c = 32 \<or> c = 160 \<or> c = 5760
     \<or> (8192 \<le> c \<and> c \<le> 8202) \<or> c = 8232 \<or> c = 8233 \<or> c = 8239 \<or> c = 8287
     \<or> c = 12288 \<or> c = 65279)"

text \<open>\<open>.\<close> matches every code unit but the line terminators.\<close>

definition isDot :: "int \<Rightarrow> bool" where
  "isDot c = (c \<noteq> 10 \<and> c \<noteq> 13 \<and> c \<noteq> 8232 \<and> c \<noteq> 8233)"

text \<open>\<open>\w\<close>, which also decides \<open>\b\<close>: ASCII letters, digits and the underscore.\<close>

definition isWordChar :: "int \<Rightarrow> bool" where
  "isWordChar c = ((65 \<le> c \<and> c \<le> 90) \<or> (97 \<le> c \<and> c \<le> 122) \<or> (48 \<le> c \<and> c \<le> 57) \<or> c = 95)"

text \<open>
  Canonicalize of the \<open>i\<close> flag without the \<open>u\<close> flag: the upper-case form of a code
  unit when that is a single code unit, except that a non-ASCII unit never folds to an
  ASCII one. It is written out for Basic Latin and Latin-1 (the sharp s, 223, has a
  two-letter upper case and stays; 247 is the division sign) and is the identity beyond: every
  pattern character of the sources lies in Latin-1, none of them is 181 or 255, and no
  code unit above 255 folds to the canonical form of one of them, so the matches are
  those of the engine.
\<close>

definition canonicalize :: "int \<Rightarrow> int" where
  "canonicalize c =
     (if 97 \<le> c \<and> c \<le> 122 then c - 32
      else if 224 \<le> c \<and> c \<le> 254 \<and> c \<noteq> 247 then c - 32
      else c)"

text \<open>\<open>String.prototype.trim\<close>.\<close>

definition trim :: "jsstring \<Rightarrow> jsstring" where
  "trim s = rev (dropWhile isSpace (rev (dropWhile isSpace s)))"

text \<open>Truthiness of an optional string: \<open>undefined\<close> and \<open>''\<close> are falsy.\<close>

fun truthy :: "jsstring option \<Rightarrow> bool" where
  "truthy None = False"
| "truthy (Some s) = (s \<noteq> [])"

text \<open>\<open>Array.prototype.join\<close>.\<close>

fun join :: "jsstring \<Rightarrow> jsstring list \<Rightarrow> jsstring" where
  "join sep [] = []"
| "join sep [x] = x"
| "join sep (x # y # ys) = x @ sep @ join sep (y # ys)"

text \<open>\<open>String.prototype.split\<close> with a one-character separator.\<close>

fun split_on :: "int \<Rightarrow> jsstring \<Rightarrow> jsstring list" where
  "split_on d [] = [[]]"
| "split_on d (x # xs) =
     (if x = d then [] # split_on d xs
      else (case split_on d xs of [] \<Rightarrow> [[x]] | y # ys \<Rightarrow> (x # y) # ys))"

section \<open>Regular expressions with the backtracking order of ECMAScript\<close>

text \<open>
  Patterns are terms of \<open>regex\<close>. \<open>Chr P\<close> consumes one code unit that satisfies \<open>P\<close>
  (a literal, a class, \<open>.\<close>, \<open>\d\<close>, \<open>\s\<close>); \<open>Bol\<close>, \<open>Eol\<close> and \<open>WordB\<close> are \<open>^\<close>, \<open>$\<close>
  (without the \<open>m\<close> flag) and \<open>\b\<close>; \<open>Star\<close> and \<open>Opt\<close> are the greedy \<open>*\<close> and \<open>?\<close>,
  \<open>LazyStar\<close> is \<open>*?\<close>; \<open>Group i\<close> is the \<open>i\<close>-th capturing group.
\<close>

datatype regex =
    Chr "int \<Rightarrow> bool"
  | Eps
  | Bol
  | Eol
  | WordB
  | Seq regex regex
  | Alt regex regex
  | Star regex
  | LazyStar regex
  | Opt regex
  | Group nat regex

text \<open>
  A matcher state: the input before the current position (reversed, nearest first), the
  input from the current position on, and the captures made so far.
\<close>

type_synonym mstate = "jsstring \<times> jsstring \<times> (nat \<Rightarrow> jsstring option)"

definition remaining :: "mstate \<Rightarrow> nat" where
  "remaining s = length (fst (snd s))"

fun wordAt :: "jsstring \<Rightarrow> bool" where
  "wordAt [] = False"
| "wordAt (x # xs) = isWordChar x"

text \<open>
  \<open>matches r s\<close> lists the states in which \<open>r\<close> can end when started in \<open>s\<close>, in the order
  in which the backtracking matcher of the language tries them: the head is the match it
  reports. A greedy quantifier tries one more iteration before stopping, a lazy one stops
  first; an iteration that consumes nothing is rejected, as RepeatMatcher does. No
  capturing group of the sources stands under \<open>*\<close> or \<open>+\<close>, so captures never need to be
  reset between iterations.
\<close>

function matches :: "regex \<Rightarrow> mstate \<Rightarrow> mstate list" where
  "matches (Chr P) s =
     (case s of (b, r, c) \<Rightarrow>
        (case r of [] \<Rightarrow> [] | x # xs \<Rightarrow> if P x then [(x # b, xs, c)] else []))"
| "matches Eps s = [s]"
| "matches Bol s = (case s of (b, r, c) \<Rightarrow> if b = [] then [s] else [])"
| "matches Eol s = (case s of (b, r, c) \<Rightarrow> if r = [] then [s] else [])"
| "matches WordB s = (case s of (b, r, c) \<Rightarrow> if wordAt b \<noteq> wordAt r then [s] else [])"
| "matches (Seq p q) s = concat (map (matches q) (matches p s))"
| "matches (Alt p q) s = matches p s @ matches q s"
| "matches (Star p) s =
     concat (map (\<lambda>t. if remaining t < remaining s then matches (Star p) t else [])
                 (matches p s)) @ [s]"
| "matches (LazyStar p) s =
     s # concat (map (\<lambda>t. if remaining t < remaining s then matches (LazyStar p) t else [])
                     (matches p s))"
| "matches (Opt p) s = filter (\<lambda>t. remaining t < remaining s) (matches p s) @ [s]"
| "matches (Group i p) s =
     map (\<lambda>t. case t of (b', r', c') \<Rightarrow>
            (b', r', c'(i \<mapsto> take (remaining s - length r') (fst (snd s)))))
         (matches p s)"
  by pat_completeness auto
termination
  by (relation "measures [\<lambda>(r, s). size r, \<lambda>(r, s). remaining s]") auto

text \<open>Pattern notation: sequences, alternatives, \<open>+\<close>, \<open>{n}\<close>, \<open>{n,}\<close> and \<open>{0,n}\<close>.\<close>

fun seqs :: "regex list \<Rightarrow> regex" where
  "seqs [] = Eps"
| "seqs [r] = r"
| "seqs (r # rs) = Seq r (seqs rs)"

fun alts :: "regex list \<Rightarrow> regex" where
  "alts [] = Eps"
| "alts [r] = r"
| "alts (r # rs) = Alt r (alts rs)"

definition Plus :: "regex \<Rightarrow> regex" where
  "Plus r = Seq r (Star r)"

definition LazyPlus :: "regex \<Rightarrow> regex" where
  "LazyPlus r = Seq r (LazyStar r)"

fun times :: "nat \<Rightarrow> regex \<Rightarrow> regex" where
  "times 0 r = Eps"
| "times (Suc 0) r = r"
| "times (Suc n) r = Seq r (times n r)"

definition atLeast_times :: "nat \<Rightarrow> regex \<Rightarrow> regex" where
  "atLeast_times n r = (if n = 0 then Star r else Seq (times n r) (Star r))"

fun upTo_times :: "nat \<Rightarrow> regex \<Rightarrow> regex" where
  "upTo_times 0 r = Eps"
| "upTo_times (Suc n) r = Opt (Seq r (upTo_times n r))"

text \<open>Literals: one code unit, an ASCII word, and both under the \<open>i\<close> flag.\<close>

definition ch :: "int \<Rightarrow> regex" where
  "ch x = Chr (\<lambda>c. c = x)"

definition chi :: "int \<Rightarrow> regex" where
  "chi x = Chr (\<lambda>c. canonicalize c = canonicalize x)"

definition lit :: "string \<Rightarrow> regex" where
  "lit w = seqs (map ch (js w))"

definition wordi :: "jsstring \<Rightarrow> regex" where
  "wordi w = seqs (map chi w)"

definition liti :: "string \<Rightarrow> regex" where
  "liti w = wordi (js w)"

text \<open>\<open>[a-z]\<close> under the \<open>i\<close> flag: a code unit whose canonical form is that of a member.\<close>

definition isAlphaI :: "int \<Rightarrow> bool" where
  "isAlphaI c = (65 \<le> canonicalize c \<and> canonicalize c \<le> 90)"

text \<open>
  The result of \<open>RegExp.prototype.exec\<close> on a pattern without the \<open>g\<close> flag: the text
  before the match, the match (\<open>match[0]\<close>), the text after it and the groups.
\<close>

record rmatch =
  pre :: jsstring
  whole :: jsstring
  post :: jsstring
  groups :: "nat \<Rightarrow> jsstring option"

text \<open>The leftmost start position that has a match, with the first match there.\<close>

fun scan :: "regex \<Rightarrow> jsstring \<Rightarrow> jsstring \<Rightarrow> (jsstring \<times> mstate) option" where
  "scan r b [] =
     (case matches r (b, [], Map.empty) of [] \<Rightarrow> None | t # ts \<Rightarrow> Some (b, t))"
| "scan r b (x # xs) =
     (case matches r (b, x # xs, Map.empty) of [] \<Rightarrow> scan r (x # b) xs | t # ts \<Rightarrow> Some (b, t))"

definition exec :: "regex \<Rightarrow> jsstring \<Rightarrow> rmatch option" where
  "exec r s =
     (case scan r [] s of
        None \<Rightarrow> None
      | Some (b, (b', r', c)) \<Rightarrow>
          Some \<lparr>pre = rev b, whole = rev (take (length b' - length b) b'), post = r', groups = c\<rparr>)"

text \<open>\<open>RegExp.prototype.test\<close>.\<close>

definition test :: "regex \<Rightarrow> jsstring \<Rightarrow> bool" where
  "test r s = (exec r s \<noteq> None)"

text \<open>\<open>String.prototype.replace\<close> with a pattern without the \<open>g\<close> flag and a plain string.\<close>

definition replace :: "regex \<Rightarrow> jsstring \<Rightarrow> jsstring \<Rightarrow> jsstring" where
  "replace r new s = (case exec r s of None \<Rightarrow> s | Some m \<Rightarrow> pre m @ new @ post m)"

section \<open>The citation parser\<close>

datatype citation_type = statute | statutory_instrument | unknown

text \<open>A JavaScript number as far as the parser and the formatter meet one.\<close>

datatype jsnumber = NaN | Num int

text \<open>
  The fields \<open>section\<close>, \<open>subsection\<close> and \<open>paragraph\<close> carry a prime: their names
  are reserved words of the prover.
\<close>

record ParsedCitation =
  valid :: bool
  type :: citation_type
  title :: "jsstring option"
  year :: "jsnumber option"
  section' :: "jsstring option"
  subsection' :: "jsstring option"
  paragraph' :: "jsstring option"
  error :: "jsstring option"

text \<open>
  Exceptions: a method call on \<open>undefined\<close>, and a statement the database refuses to
  prepare.
\<close>

datatype js_error = TypeError | SqliteError

text \<open>\<open>\d\<close>, \<open>\s\<close> and \<open>.\<close> as patterns.\<close>

definition digit :: regex where
  "digit = Chr isDigit"

definition space :: regex where
  "space = Chr isSpace"

definition dot :: regex where
  "dot = Chr isDot"

text \<open>
  The section token \<open>[\d]+[a-z]?(?:\(\d+\))*(?:\([a-z]\))?\<close> under the \<open>i\<close> flag, which
  every citation pattern repeats.
\<close>

definition section_token :: regex where
  "section_token =
     seqs [Plus digit, Opt (Chr isAlphaI),
           Star (seqs [ch 40, Plus digit, ch 41]),
           Opt (seqs [ch 40, Chr isAlphaI, ch 41])]"

text \<open>\<open>(?:\<section>|Paragraph|Paragraf)\<close> under the \<open>i\<close> flag.\<close>

definition marker :: regex where
  "marker = alts [chi SECT, liti ''Paragraph'', liti ''Paragraf'']"

definition SECTION_THEN_TITLE :: regex where
  "SECTION_THEN_TITLE =
     seqs [Bol, marker, Star space, Group 1 section_token, Star space, Opt (ch 44),
           Plus space, Group 2 (Plus dot), Eol]"

definition TITLE_THEN_SECTION :: regex where
  "TITLE_THEN_SECTION =
     seqs [Bol, Group 1 (LazyPlus dot), Plus space, marker, Star space,
           Group 2 section_token, Eol]"

definition MACHINE_REF_THEN_TITLE :: regex where
  "MACHINE_REF_THEN_TITLE =
     seqs [Bol, liti ''para'', Group 1 (Seq (Plus digit) (Opt (Chr isAlphaI))),
           Star space, Opt (ch 44), Plus space, Group 2 (Plus dot), Eol]"

definition LEGACY_ENGLISH :: regex where
  "LEGACY_ENGLISH =
     seqs [Bol, Alt (liti ''Section'') (Seq (chi 115) (Opt (ch 46))), Plus space,
           Group 1 section_token, Star space, Opt (ch 44), Plus space,
           Group 2 (LazyPlus dot), Opt (Seq (Plus space) (Group 3 (times 4 digit))), Eol]"

definition SECTION_REF :: regex where
  "SECTION_REF =
     seqs [Bol, Group 1 (Seq (Plus digit) (Opt (Chr isAlphaI))),
           Opt (seqs [ch 40, Group 2 (Plus digit), ch 41]),
           Opt (seqs [ch 40, Group 3 (Chr isAlphaI), ch 41]), Eol]"

text \<open>\<open>/^para[\d]+[a-z]?$/i\<close> and the bare section reference of \<open>parseCitation\<close>.\<close>

definition BARE_MACHINE_REF :: regex where
  "BARE_MACHINE_REF = seqs [Bol, liti ''para'', Plus digit, Opt (Chr isAlphaI), Eol]"

definition BARE_SECTION :: regex where
  "BARE_SECTION = seqs [Bol, marker, Star space, Group 1 section_token, Eol]"

text \<open>\<open>/\s+(\d{4})$/\<close> of \<open>splitYear\<close> and \<open>/^para/i\<close> of \<open>parseSection\<close>.\<close>

definition YEAR_SUFFIX :: regex where
  "YEAR_SUFFIX = seqs [Plus space, Group 1 (times 4 digit), Eol]"

definition PARA_PREFIX :: regex where
  "PARA_PREFIX = Seq Bol (liti ''para'')"

text \<open>
  \<open>Number.parseInt(s, 10)\<close>: leading white space is skipped, a sign is read, and the
  longest run of decimal digits is the value; without a digit the result is \<open>NaN\<close>.
\<close>

definition digits_value :: "jsstring \<Rightarrow> int" where
  "digits_value ds = foldl (\<lambda>a d. 10 * a + (d - 48)) 0 ds"

definition parseInt :: "jsstring \<Rightarrow> jsnumber" where
  "parseInt s =
     (let t = dropWhile isSpace s;
          neg = (t \<noteq> [] \<and> hd t = 45);
          u = (if t \<noteq> [] \<and> (hd t = 45 \<or> hd t = 43) then tl t else t);
          ds = takeWhile isDigit u
      in if ds = [] then NaN else Num (if neg then - digits_value ds else digits_value ds))"

definition splitYear :: "jsstring \<Rightarrow> jsstring \<times> jsnumber option" where
  "splitYear titleStr =
     (let trimmed = trim titleStr in
      case exec YEAR_SUFFIX trimmed of
        None \<Rightarrow> (trimmed, None)
      | Some m \<Rightarrow>
          if \<not> truthy (groups m 1) then (trimmed, None)
          else (trim (take (length trimmed - length (whole m)) trimmed),
                Some (parseInt (the (groups m 1)))))"

definition parseSection ::
  "jsstring \<Rightarrow> jsstring option \<Rightarrow> jsnumber option \<Rightarrow> citation_type \<Rightarrow> ParsedCitation" where
  "parseSection sectionStr title0 year0 type0 =
     (let normalized = trim (replace PARA_PREFIX [] sectionStr);
          sectionMatch = exec SECTION_REF normalized
      in \<lparr>valid = True, type = type0, title = map_option trim title0, year = year0,
          section' = (case sectionMatch of
                       None \<Rightarrow> Some normalized
                     | Some m \<Rightarrow> (case groups m 1 of None \<Rightarrow> Some normalized | Some g \<Rightarrow> Some g)),
          subsection' = (case sectionMatch of None \<Rightarrow> None | Some m \<Rightarrow> groups m 2),
          paragraph' = (case sectionMatch of None \<Rightarrow> None | Some m \<Rightarrow> groups m 3),
          error = None\<rparr>)"

definition invalid_citation :: "jsstring \<Rightarrow> ParsedCitation" where
  "invalid_citation msg =
     \<lparr>valid = False, type = unknown, title = None, year = None, section' = None,
      subsection' = None, paragraph' = None, error = Some msg\<rparr>"

text \<open>Both groups of a match are truthy: \<open>match?.[1] && match[2]\<close>.\<close>

definition both_truthy :: "rmatch option \<Rightarrow> bool" where
  "both_truthy m = (case m of None \<Rightarrow> False | Some g \<Rightarrow> truthy (groups g 1) \<and> truthy (groups g 2))"

definition parseCitation :: "jsstring \<Rightarrow> js_error + ParsedCitation" where
  "parseCitation citation =
     (let trimmed = trim citation in
      if trimmed = [] then Inr (invalid_citation (js ''Empty citation''))
      else if both_truthy (exec SECTION_THEN_TITLE trimmed) then
        (let m = the (exec SECTION_THEN_TITLE trimmed);
             sy = splitYear (the (groups m 2))
         in Inr (parseSection (the (groups m 1)) (Some (fst sy)) (snd sy) statute))
      else if both_truthy (exec TITLE_THEN_SECTION trimmed) then
        (let m = the (exec TITLE_THEN_SECTION trimmed);
             sy = splitYear (the (groups m 1))
         in Inr (parseSection (the (groups m 2)) (Some (fst sy)) (snd sy) statute))
      else if both_truthy (exec MACHINE_REF_THEN_TITLE trimmed) then
        (let m = the (exec MACHINE_REF_THEN_TITLE trimmed);
             sy = splitYear (the (groups m 2))
         in Inr (parseSection (the (groups m 1)) (Some (fst sy)) (snd sy) statute))
      else if both_truthy (exec LEGACY_ENGLISH trimmed) then
        (let m = the (exec LEGACY_ENGLISH trimmed);
             year0 = (if truthy (groups m 3) then Some (parseInt (the (groups m 3))) else None)
         in Inr (parseSection (the (groups m 1)) (groups m 2) year0 statute))
      else if test BARE_MACHINE_REF trimmed then
        Inr (parseSection (drop 4 trimmed) None None statute)
      else
        (case exec BARE_SECTION trimmed of
           Some m \<Rightarrow>
             (case groups m 1 of
                None \<Rightarrow> Inl TypeError
              | Some g \<Rightarrow> Inr (parseSection g None None statute))
         | None \<Rightarrow>
             Inr (invalid_citation
                    (js ''Could not parse Austrian citation: '' @ [34] @ trimmed @ [34]))))"

section \<open>The citation formatter\<close>

text \<open>
  \<open>CitationFormat\<close> is \<open>'full' | 'short' | 'pinpoint'\<close>; \<open>other_format\<close> stands for any
  other value a caller passes through a cast, which the \<open>default\<close> branch receives.
\<close>

datatype CitationFormat = full | short | pinpoint | other_format jsstring

text \<open>Truthiness of an optional number: \<open>undefined\<close>, \<open>0\<close> and \<open>NaN\<close> are falsy.\<close>

fun truthy_number :: "jsnumber option \<Rightarrow> bool" where
  "truthy_number None = False"
| "truthy_number (Some NaN) = False"
| "truthy_number (Some (Num n)) = (n \<noteq> 0)"

text \<open>
  \<open>String(n)\<close> on an integral number of magnitude below \<open>10\<^sup>2\<^sup>1\<close>: its decimal digits.
  From \<open>10\<^sup>2\<^sup>1\<close> on the language prints an exponent form, and a number with a
  fraction is not a \<open>Num\<close>; both are outside this model. The parser reads a year from
  exactly four digits, so the years it produces lie between 0 and 9999.
\<close>

function digits_of :: "nat \<Rightarrow> jsstring" where
  "digits_of n = (if n < 10 then [48 + int n] else digits_of (n div 10) @ [48 + int (n mod 10)])"
  by pat_completeness auto
termination
  by (relation "measure id") auto

fun String_of :: "jsnumber \<Rightarrow> jsstring" where
  "String_of NaN = js ''NaN''"
| "String_of (Num n) = (if n < 0 then 45 # digits_of (nat (- n)) else digits_of (nat n))"

text \<open>
  \<open>ref\<close> starts as \<open>parsed.section!\<close>; were the section \<open>undefined\<close>, string concatenation
  and the template literals of the caller would render it as \<open>undefined\<close>.
\<close>

definition buildPinpoint :: "ParsedCitation \<Rightarrow> jsstring" where
  "buildPinpoint parsed =
     (let ref0 = (case section' parsed of None \<Rightarrow> js ''undefined'' | Some s \<Rightarrow> s);
          ref1 = (if truthy (subsection' parsed)
                  then ref0 @ [40] @ the (subsection' parsed) @ [41] else ref0)
      in if truthy (paragraph' parsed)
         then ref1 @ [40] @ the (paragraph' parsed) @ [41] else ref1)"

text \<open>\<open>.filter(Boolean)\<close> on an array of optional strings.\<close>

definition filter_Boolean :: "jsstring option list \<Rightarrow> jsstring list" where
  "filter_Boolean xs = map the (filter truthy xs)"

definition formatCitation :: "ParsedCitation \<Rightarrow> CitationFormat \<Rightarrow> jsstring" where
  "formatCitation parsed format =
     (if \<not> valid parsed \<or> \<not> truthy (section' parsed) then []
      else
        (let pin = buildPinpoint parsed;
             titleAndYear =
               join (js '' '')
                 (filter_Boolean
                    [title parsed,
                     if truthy_number (year parsed) then Some (String_of (the (year parsed)))
                     else None])
         in case format of
              full \<Rightarrow>
                (if titleAndYear \<noteq> [] then [SECT, 32] @ pin @ js '', '' @ titleAndYear
                 else [SECT, 32] @ pin)
            | short \<Rightarrow>
                (if truthy (title parsed) then [SECT, 32] @ pin @ js '' '' @ the (title parsed)
                 else [SECT, 32] @ pin)
            | pinpoint \<Rightarrow> [SECT, 32] @ pin
            | other_format f \<Rightarrow>
                (if titleAndYear \<noteq> [] then [SECT, 32] @ pin @ js '', '' @ titleAndYear
                 else [SECT, 32] @ pin)))"

text \<open>\<open>String.prototype.includes\<close>.\<close>

definition includes_str :: "jsstring \<Rightarrow> jsstring \<Rightarrow> bool" where
  "includes_str s sub = list_ex (\<lambda>i. take (length sub) (drop i s) = sub) [0..<Suc (length s)]"

section \<open>Provision lookup candidates\<close>

record ProvisionCandidateSet =
  canonicalSection :: jsstring
  provisionRefs :: "jsstring list"
  sections :: "jsstring list"

text \<open>A leading \<open>\<section>\<close>, \<open>Paragraph\<close>, \<open>Paragraf\<close> or \<open>para\<close> marker.\<close>

definition CANDIDATE_MARKER :: regex where
  "CANDIDATE_MARKER =
     Seq Bol (alts [chi SECT, liti ''Paragraph'', liti ''Paragraf'', liti ''para''])"

text \<open>
  Modelled from the spec: \<open>buildProvisionLookupCandidates\<close> of
  \<open>src/utils/provision-candidates.ts\<close>, of which the sources hold only the callers and
  the tests. The marker and the white space around it are stripped to give
  \<open>canonicalSection\<close>; \<open>provisionRefs\<close> is \<open>para\<close> followed by it, and then the case
  variants, which the specification leaves open and which are the parameter
  \<open>caseVariants\<close>; \<open>sections\<close> holds the decorated and the bare form. Empty input gives
  the empty candidate set.
\<close>

definition buildProvisionLookupCandidates ::
  "(jsstring \<Rightarrow> jsstring list) \<Rightarrow> jsstring \<Rightarrow> ProvisionCandidateSet" where
  "buildProvisionLookupCandidates caseVariants ref =
     (if ref = [] then \<lparr>canonicalSection = [], provisionRefs = [], sections = []\<rparr>
      else
        (let canonical = trim (replace CANDIDATE_MARKER [] (trim ref))
         in \<lparr>canonicalSection = canonical,
             provisionRefs = (js ''para'' @ canonical) # caseVariants canonical,
             sections = [[SECT, 32] @ canonical, canonical]\<rparr>))"

section \<open>The citation validator\<close>

record legal_document =
  doc_id :: jsstring
  doc_title :: jsstring
  doc_status :: jsstring

record legal_provision =
  document_id :: jsstring
  provision_ref :: jsstring
  provision_section :: jsstring

text \<open>The two tables of the database that the validator reads.\<close>

record Database =
  legal_documents :: "legal_document list"
  legal_provisions :: "legal_provision list"

record ValidationResult =
  citation :: ParsedCitation
  document_exists :: bool
  provision_exists :: bool
  document_title :: "jsstring option"
  status :: "jsstring option"
  warnings :: "jsstring list"

text \<open>\<open>/\bgesetz-\d+\b/i\<close>.\<close>

definition STATUTE_ID :: regex where
  "STATUTE_ID = seqs [WordB, liti ''gesetz-'', Plus digit, WordB]"

text \<open>
  \<open>SELECT 1 FROM legal_provisions WHERE document_id = ? AND (... OR ...) LIMIT 1\<close>: with
  no candidate the parenthesis is empty and the statement is not prepared.
\<close>

definition provision_query ::
  "Database \<Rightarrow> jsstring \<Rightarrow> ProvisionCandidateSet \<Rightarrow> js_error + bool" where
  "provision_query db did candidates =
     (if provisionRefs candidates = [] \<and> sections candidates = [] then Inl SqliteError
      else Inr (list_ex (\<lambda>row. document_id row = did
                    \<and> (provision_ref row \<in> set (provisionRefs candidates)
                       \<or> provision_section row \<in> set (sections candidates)))
                  (legal_provisions db)))"

text \<open>
  \<open>validateCitation\<close>. \<open>resolveExistingStatuteId\<close> and \<open>buildProvisionLookupCandidates\<close>
  are imported from modules that are not among the sources: they are the parameters
  \<open>resolveId\<close> and \<open>buildCandidates\<close>. Its local constants \<open>lookupTerm\<close> and \<open>doc\<close> are
  named, so that statements can speak of them. The two characters before the section in
  the last warning are U+0E22 and U+0E07, as the source has them.
\<close>

definition lookupTerm :: "ParsedCitation \<Rightarrow> jsstring \<Rightarrow> jsstring option" where
  "lookupTerm parsed cit =
     (let explicitId = map_option whole (exec STATUTE_ID cit)
      in case title parsed of None \<Rightarrow> explicitId | Some t \<Rightarrow> Some t)"

definition lookupDocument ::
  "(Database \<Rightarrow> jsstring \<Rightarrow> jsstring option) \<Rightarrow> Database \<Rightarrow> jsstring \<Rightarrow> legal_document option" where
  "lookupDocument resolveId db term =
     (let resolvedId = resolveId db term
      in if truthy resolvedId then find (\<lambda>d. doc_id d = the resolvedId) (legal_documents db)
         else None)"

definition validateCitation ::
  "(Database \<Rightarrow> jsstring \<Rightarrow> jsstring option) \<Rightarrow> (jsstring \<Rightarrow> ProvisionCandidateSet) \<Rightarrow>
   Database \<Rightarrow> jsstring \<Rightarrow> js_error + ValidationResult" where
  "validateCitation resolveId buildCandidates db cit =
     (case parseCitation cit of
        Inl e \<Rightarrow> Inl e
      | Inr parsed \<Rightarrow>
          if \<not> valid parsed then
            Inr \<lparr>citation = parsed, document_exists = False, provision_exists = False,
                 document_title = None, status = None,
                 warnings = [case error parsed of None \<Rightarrow> js ''Invalid citation format''
                                                | Some e \<Rightarrow> e]\<rparr>
          else if \<not> truthy (lookupTerm parsed cit) then
            Inr \<lparr>citation = parsed, document_exists = False, provision_exists = False,
                 document_title = None, status = None,
                 warnings = [js ''Citation must include either a statute title or statute ID (e.g. gesetz-10001622).'']\<rparr>
          else
            (case lookupDocument resolveId db (the (lookupTerm parsed cit)) of
               None \<Rightarrow>
                 Inr \<lparr>citation = parsed, document_exists = False, provision_exists = False,
                      document_title = None, status = None,
                      warnings = [js ''Document '' @ [34] @ the (lookupTerm parsed cit) @ [34]
                                  @ js '' not found in database'']\<rparr>
             | Some d \<Rightarrow>
                 (let warnings0 = (if doc_status d = js ''repealed''
                                   then [js ''This statute has been repealed''] else [])
                  in if truthy (section' parsed) then
                       (case provision_query db (doc_id d)
                               (buildCandidates (the (section' parsed))) of
                          Inl e \<Rightarrow> Inl e
                        | Inr provisionExists \<Rightarrow>
                            Inr \<lparr>citation = parsed, document_exists = True,
                                 provision_exists = provisionExists,
                                 document_title = Some (doc_title d),
                                 status = Some (doc_status d),
                                 warnings =
                                   (if provisionExists then warnings0
                                    else warnings0 @
                                      [js ''Section '' @ [3618, 3591, 32]
                                       @ the (section' parsed) @ js '' not found in ''
                                       @ doc_title d])\<rparr>)
                     else
                       Inr \<lparr>citation = parsed, document_exists = True,
                            provision_exists = True,
                            document_title = Some (doc_title d),
                            status = Some (doc_status d), warnings = warnings0\<rparr>)))"

section \<open>The provision content cleaner\<close>

text \<open>
  The character classes of the cleaner's patterns: \<open>A-Z\<close> with the upper-case umlauts
  (196, 214, 220) and \<open>a-z\<close> with the lower-case ones (228, 246, 252). Only the last
  metadata pattern and the function-word test have the \<open>i\<close> flag.
\<close>

definition isUpperDE :: "int \<Rightarrow> bool" where
  "isUpperDE c = ((65 \<le> c \<and> c \<le> 90) \<or> c = 196 \<or> c = 214 \<or> c = 220)"

definition isLowerDE :: "int \<Rightarrow> bool" where
  "isLowerDE c = ((97 \<le> c \<and> c \<le> 122) \<or> c = 228 \<or> c = 246 \<or> c = 252)"

text \<open>The class of the short-name pattern: those letters and the hyphen.\<close>

definition isShortNameChar :: "int \<Rightarrow> bool" where
  "isShortNameChar c = (isUpperDE c \<or> isLowerDE c \<or> c = 45)"

text \<open>
  The classes of the keyword pattern: those letters and the sharp s (223) start a term;
  white space and the hyphen may follow.
\<close>

definition isTermStart :: "int \<Rightarrow> bool" where
  "isTermStart c = (isUpperDE c \<or> isLowerDE c \<or> c = 223)"

definition isTermChar :: "int \<Rightarrow> bool" where
  "isTermChar c = (isTermStart c \<or> isSpace c \<or> c = 45)"

definition wordc :: regex where
  "wordc = Chr isWordChar"

definition METADATA_LINE_PATTERNS :: "regex list" where
  "METADATA_LINE_PATTERNS =
     [seqs [Bol,
            alts [seqs [lit ''BGBl'', Opt (ch 46), Star space,
                        Seq (Opt (Seq (Plus (Chr (\<lambda>c. c = 73 \<or> c = 86 \<or> c = 88))) (Plus space)))
                            (lit ''Nr.''),
                        Star space, Plus dot],
                  seqs [lit ''JGS'', Plus space, lit ''Nr.'', Star space, Plus dot],
                  seqs [lit ''StGBl'', Opt (ch 46), Star space, Opt (lit ''Nr.''), Star space,
                        Plus dot]],
            Eol],
      seqs [Bol,
            alts [lit ''BG'', lit ''BVG'', lit ''V'', lit ''StF'', lit ''GZ'',
                  seqs [lit ''Vertrag'', Plus space, ch 8211, Plus space, Plus dot]],
            Eol],
      seqs [Bol,
            alts [seqs [ch SECT, Star space, Plus digit, Star wordc],
                  seqs [lit ''Art'', Opt (ch 46), Star space, Plus digit, Star wordc],
                  seqs [lit ''Anl'', Opt (ch 46), Star space, Plus digit, Star wordc]],
            Eol],
      seqs [Bol, times 2 digit, ch 47, times 2 digit, Plus space, Chr isUpperDE, Plus dot, Eol],
      seqs [Bol, Chr isUpperDE, upTo_times 8 (Chr isShortNameChar), Eol],
      seqs [Bol, lit ''NOR'', Plus digit, Eol],
      seqs [Bol, ch 78, atLeast_times 5 digit, Chr (\<lambda>c. 65 \<le> c \<and> c \<le> 90), Eol],
      seqs [Bol, times 7 digit, Opt digit, Eol],
      seqs [Bol, times 2 digit, ch 46, times 2 digit, ch 46, times 4 digit, Eol],
      seqs [Bol, upTo_times 60 dot, ch 44, Star space, lit ''BGBl'', Opt (ch 46), Star space,
            Alt (lit ''Nr.'') (seqs [ch 73, Plus space, lit ''Nr.'']), Star space, Plus digit,
            Star dot, Eol],
      seqs [Bol,
            alts [liti ''Erst'', liti ''Zweit'', liti ''Dritt'', liti ''Viert'',
                  wordi (js ''F'' @ [252] @ js ''nft''), liti ''Sechst'', liti ''Siebent'',
                  liti ''Acht'', liti ''Neunt'', liti ''Zehnt''],
            Seq (chi 101) (Opt (Chr (\<lambda>c. canonicalize c = 83 \<or> canonicalize c = 82))),
            Plus space,
            alts [Seq (liti ''Haupt'') (Alt (wordi (js ''st'' @ [252] @ js ''ck'')) (liti ''teil'')),
                  liti ''Abschnitt'', liti ''Teil'', liti ''Buch''],
            Opt (ch 46), Eol]]"

definition KEYWORD_LINE_PATTERN :: regex where
  "KEYWORD_LINE_PATTERN =
     seqs [Bol,
           atLeast_times 2 (seqs [Chr isTermStart, Star (Chr isTermChar), ch 44, Star space]),
           Chr isTermStart, Star (Chr isTermChar), Opt (ch 44), Eol]"

definition TRAILING_SECTION_REF :: regex where
  "TRAILING_SECTION_REF =
     seqs [Plus space,
           Alt (seqs [ch SECT, Star space, Plus digit, Star wordc])
               (seqs [lit ''Artikel'', Star space, Plus digit, Star wordc]),
           Opt (ch 46), Star space, Eol]"

text \<open>The function-word test of \<open>isKeywordLine\<close>, under the \<open>i\<close> flag.\<close>

definition FUNCTION_WORD :: regex where
  "FUNCTION_WORD =
     seqs [WordB,
           alts [liti ''ist'', liti ''sind'', liti ''wird'', liti ''werden'', liti ''hat'',
                 liti ''haben'', liti ''kann'', wordi (js ''k'' @ [246] @ js ''nnen''),
                 liti ''soll'', liti ''sollen'', liti ''darf'',
                 wordi (js ''d'' @ [252] @ js ''rfen''), liti ''muss'',
                 wordi (js ''m'' @ [252] @ js ''ssen''), wordi (js ''gem'' @ [228, 223]),
                 liti ''nach'', liti ''durch'', liti ''auf'', wordi ([252] @ js ''ber''),
                 liti ''bei'', liti ''unter''],
           WordB]"

definition isKeywordLine :: "jsstring \<Rightarrow> bool" where
  "isKeywordLine line =
     (if \<not> test KEYWORD_LINE_PATTERN line then False
      else if list_ex (\<lambda>t. length t > 40) (map trim (split_on 44 line)) then False
      else if test FUNCTION_WORD line then False
      else True)"

text \<open>
  \<open>String.prototype.replace\<close> with a pattern with the \<open>g\<close> flag: every match, from left
  to right, is replaced; after an empty match the next character is copied.
\<close>

function replaceAll :: "regex \<Rightarrow> jsstring \<Rightarrow> jsstring \<Rightarrow> jsstring \<Rightarrow> jsstring" where
  "replaceAll r new b s =
     (case matches r (b, s, Map.empty) of
        [] \<Rightarrow> (case s of [] \<Rightarrow> [] | x # xs \<Rightarrow> x # replaceAll r new (x # b) xs)
      | t # ts \<Rightarrow>
          (if remaining t < length s then new @ replaceAll r new (fst t) (fst (snd t))
           else new @ (case s of [] \<Rightarrow> [] | x # xs \<Rightarrow> x # replaceAll r new (x # b) xs)))"
  by pat_completeness auto
termination
  by (relation "measure (\<lambda>(r, new, b, s). length s)") (auto simp: remaining_def)

text \<open>Pass 1: a line stays when it is not blank and no metadata pattern matches it.\<close>

definition isContentLine :: "jsstring \<Rightarrow> bool" where
  "isContentLine line =
     (let trimmed = trim line
      in if trimmed = [] then False
         else \<not> list_ex (\<lambda>pattern. test pattern trimmed) METADATA_LINE_PATTERNS)"

text \<open>Pass 2: the \<open>while\<close> loop that pops keyword lines from the end.\<close>

function pop_keywords :: "jsstring list \<Rightarrow> jsstring list" where
  "pop_keywords lines =
     (if lines \<noteq> [] \<and> isKeywordLine (trim (last lines)) then pop_keywords (butlast lines)
      else lines)"
  by pat_completeness auto
termination
  by (relation "measure length") auto

text \<open>The text after both passes: \<open>lines.join('\n').trim()\<close>.\<close>

definition joinedLines :: "jsstring \<Rightarrow> jsstring" where
  "joinedLines content =
     trim (join [10] (pop_keywords (filter isContentLine (split_on 10 content))))"

definition cleanProvisionContent :: "jsstring \<Rightarrow> jsstring" where
  "cleanProvisionContent content =
     (let cleaned0 = joinedLines content;
          cleaned1 = replace TRAILING_SECTION_REF [] cleaned0;
          cleaned2 = replaceAll (atLeast_times 3 (ch 10)) [10, 10] [] cleaned1
      in trim cleaned2)"

section \<open>The full-text query builder\<close>















section \<open>Notions for the proofs\<close>

text \<open>The capturing groups that occur in a pattern.\<close>

fun grps :: "regex \<Rightarrow> nat set" where
  "grps (Seq p q) = grps p \<union> grps q"
| "grps (Alt p q) = grps p \<union> grps q"
| "grps (Star p) = grps p"
| "grps (LazyStar p) = grps p"
| "grps (Opt p) = grps p"
| "grps (Group i p) = insert i (grps p)"
| "grps r = {}"

text \<open>A capture that is present and starts with a digit.\<close>

fun digit_led :: "jsstring option \<Rightarrow> bool" where
  "digit_led (Some (x # xs)) = isDigit x"
| "digit_led g = False"

text \<open>Every match of the pattern leaves such a capture in group \<open>k\<close>.\<close>

definition always_led :: "nat \<Rightarrow> regex \<Rightarrow> bool" where
  "always_led k r = (\<forall>s t. t \<in> set (matches r s) \<longrightarrow> digit_led (snd (snd t) k))"






text \<open>
  Occurrences of a function word in a line are read without regard to letter case:
  \<open>toLowerDE\<close> is the lower-case form of a German letter. \<open>standalone_function_words\<close>
  are the words of the function-word test that begin and end with an ASCII letter, that
  is, all of them but the two spelt \<open>[252] @ js ''ber''\<close> and \<open>js ''gem'' @ [228, 223]\<close>.
\<close>

definition toLowerDE :: "int \<Rightarrow> int" where
  "toLowerDE c = (if isUpperDE c then c + 32 else c)"

definition standalone_function_words :: "jsstring list" where
  "standalone_function_words =
     [js ''ist'', js ''sind'', js ''wird'', js ''werden'', js ''hat'', js ''haben'', js ''kann'',
      js ''k'' @ [246] @ js ''nnen'', js ''soll'', js ''sollen'', js ''darf'',
      js ''d'' @ [252] @ js ''rfen'', js ''muss'', js ''m'' @ [252] @ js ''ssen'',
      js ''nach'', js ''durch'', js ''auf'', js ''bei'', js ''unter'']"






section \<open>The matcher: positions and captures\<close>

text \<open>
  The equations of the two stars call the matcher under a binder; they are unfolded by
  hand.
\<close>

declare matches.simps(8,9) [simp del]

lemma in_matches_Star:
  "t \<in> set (matches (Star p) s) \<longleftrightarrow>
     t = s \<or> (\<exists>u \<in> set (matches p s). remaining u < remaining s \<and> t \<in> set (matches (Star p) u))"
  by (subst matches.simps(8)) auto

lemma in_matches_LazyStar:
  "t \<in> set (matches (LazyStar p) s) \<longleftrightarrow>
     t = s \<or> (\<exists>u \<in> set (matches p s). remaining u < remaining s \<and> t \<in> set (matches (LazyStar p) u))"
  by (subst matches.simps(9)) auto

lemma in_matches_Seq:
  "t \<in> set (matches (Seq p q) s) \<longleftrightarrow> (\<exists>u \<in> set (matches p s). t \<in> set (matches q u))"
  by auto

lemma matches_suffix:
  "t \<in> set (matches p s) \<Longrightarrow> \<exists>w. fst (snd s) = w @ fst (snd t) \<and> fst t = rev w @ fst s"
proof (induction p s arbitrary: t rule: matches.induct)
  case (1 P s)
  then show ?case by (auto split: prod.splits list.splits if_splits)
next
  case (6 p q s)
  from "6.prems" obtain u where u: "u \<in> set (matches p s)" and t: "t \<in> set (matches q u)"
    by auto
  from "6.IH"(1)[OF u] "6.IH"(2)[OF u t] show ?case by auto
next
  case (8 p s)
  show ?case
  proof (cases "t = s")
    case True
    then show ?thesis by simp
  next
    case False
    with "8.prems" obtain u where u: "u \<in> set (matches p s)" and lt: "remaining u < remaining s"
        and t: "t \<in> set (matches (Star p) u)"
      by (auto simp: in_matches_Star[of t p s])
    from "8.IH"(1)[OF u] "8.IH"(2)[OF u lt t] show ?thesis by auto
  qed
next
  case (9 p s)
  show ?case
  proof (cases "t = s")
    case True
    then show ?thesis by simp
  next
    case False
    with "9.prems" obtain u where u: "u \<in> set (matches p s)" and lt: "remaining u < remaining s"
        and t: "t \<in> set (matches (LazyStar p) u)"
      by (auto simp: in_matches_LazyStar[of t p s])
    from "9.IH"(1)[OF u] "9.IH"(2)[OF u lt t] show ?thesis by auto
  qed
next
  case (11 i p s)
  then show ?case by (auto split: prod.splits)
qed (auto split: prod.splits if_splits)

lemma matches_frame:
  "t \<in> set (matches p s) \<Longrightarrow> k \<notin> grps p \<Longrightarrow> snd (snd t) k = snd (snd s) k"
proof (induction p s arbitrary: t rule: matches.induct)
  case (1 P s)
  then show ?case by (auto split: prod.splits list.splits if_splits)
next
  case (6 p q s)
  from "6.prems" obtain u where u: "u \<in> set (matches p s)" and t: "t \<in> set (matches q u)"
    by auto
  from "6.IH"(1)[OF u] "6.IH"(2)[OF u t] "6.prems"(2) show ?case by auto
next
  case (8 p s)
  show ?case
  proof (cases "t = s")
    case True
    then show ?thesis by simp
  next
    case False
    with "8.prems" obtain u where u: "u \<in> set (matches p s)" and lt: "remaining u < remaining s"
        and t: "t \<in> set (matches (Star p) u)"
      by (auto simp: in_matches_Star[of t p s])
    from "8.IH"(1)[OF u] "8.IH"(2)[OF u lt t] "8.prems"(2) show ?thesis by auto
  qed
next
  case (9 p s)
  show ?case
  proof (cases "t = s")
    case True
    then show ?thesis by simp
  next
    case False
    with "9.prems" obtain u where u: "u \<in> set (matches p s)" and lt: "remaining u < remaining s"
        and t: "t \<in> set (matches (LazyStar p) u)"
      by (auto simp: in_matches_LazyStar[of t p s])
    from "9.IH"(1)[OF u] "9.IH"(2)[OF u lt t] "9.prems"(2) show ?thesis by auto
  qed
next
  case (11 i p s)
  then show ?case by (auto split: prod.splits)
qed (auto split: prod.splits if_splits)

lemma in_matches_Chr:
  "t \<in> set (matches (Chr P) s) \<Longrightarrow>
     \<exists>x. P x \<and> fst (snd s) = x # fst (snd t) \<and> fst t = x # fst s \<and> snd (snd t) = snd (snd s)"
  by (auto split: prod.splits list.splits if_splits)

lemma set_matches_Seq:
  "set (matches (Seq p q) s) = (\<Union>u \<in> set (matches p s). set (matches q u))"
  by auto

lemma in_matches_Group:
  assumes "t \<in> set (matches (Group k p) s)"
  shows "\<exists>u \<in> set (matches p s). fst t = fst u \<and> fst (snd t) = fst (snd u)
        \<and> snd (snd t) = (snd (snd u))(k \<mapsto> take (remaining s - remaining u) (fst (snd s)))"
proof -
  from assms obtain u where u: "u \<in> set (matches p s)"
      and t: "t = (case u of (b', r', c') \<Rightarrow>
                 (b', r', c'(k \<mapsto> take (remaining s - length r') (fst (snd s)))))"
    by auto
  obtain b' r' c' where "u = (b', r', c')" by (cases u) auto
  with u t show ?thesis by (intro bexI[of _ u]) (simp_all add: remaining_def)
qed

lemma Plus_digit_led:
  assumes "u \<in> set (matches (Seq (Plus digit) q) s)"
  shows "\<exists>x w. isDigit x \<and> fst (snd s) = x # w @ fst (snd u)"
proof -
  from assms obtain t1 t2 where t1: "t1 \<in> set (matches (Chr isDigit) s)"
      and t2: "t2 \<in> set (matches (Star digit) t1)" and u: "u \<in> set (matches q t2)"
    unfolding Plus_def digit_def set_matches_Seq by blast
  from in_matches_Chr[OF t1] obtain x where x: "isDigit x" "fst (snd s) = x # fst (snd t1)"
    by blast
  from matches_suffix[OF t2] obtain w1 where "fst (snd t1) = w1 @ fst (snd t2)" by blast
  moreover from matches_suffix[OF u] obtain w2 where "fst (snd t2) = w2 @ fst (snd u)" by blast
  ultimately have "fst (snd s) = x # (w1 @ w2) @ fst (snd u)" using x by simp
  with x show ?thesis by blast
qed

lemma Group_digit_led:
  assumes "t \<in> set (matches (Group k (Seq (Plus digit) q)) s)"
  shows "digit_led (snd (snd t) k)"
proof -
  from in_matches_Group[OF assms] obtain u where u: "u \<in> set (matches (Seq (Plus digit) q) s)"
      and c: "snd (snd t) = (snd (snd u))(k \<mapsto> take (remaining s - remaining u) (fst (snd s)))"
    by blast
  from c have t: "snd (snd t) k = Some (take (remaining s - remaining u) (fst (snd s)))"
    by simp
  from Plus_digit_led[OF u] obtain x w where "isDigit x" "fst (snd s) = x # w @ fst (snd u)"
    by blast
  with t show ?thesis by (simp add: remaining_def)
qed

lemma always_led_Group: "always_led k (Group k (Seq (Plus digit) q))"
  unfolding always_led_def using Group_digit_led by blast

lemma always_led_SeqR: "always_led k q \<Longrightarrow> always_led k (Seq p q)"
  unfolding always_led_def set_matches_Seq by blast

lemma always_led_SeqL:
  assumes "always_led k p" and "k \<notin> grps q"
  shows "always_led k (Seq p q)"
  unfolding always_led_def
proof (intro allI impI)
  fix s t
  assume "t \<in> set (matches (Seq p q) s)"
  then obtain u where u: "u \<in> set (matches p s)" and t: "t \<in> set (matches q u)"
    unfolding set_matches_Seq by blast
  from assms(1) u have "digit_led (snd (snd u) k)" unfolding always_led_def by blast
  with matches_frame[OF t assms(2)] show "digit_led (snd (snd t) k)" by simp
qed

lemma section_token_Seq:
  "section_token = Seq (Plus digit) (seqs [Opt (Chr isAlphaI),
           Star (seqs [ch 40, Plus digit, ch 41]),
           Opt (seqs [ch 40, Chr isAlphaI, ch 41])])"
  by (simp add: section_token_def)

lemmas regex_defs = Plus_def LazyPlus_def ch_def chi_def dot_def space_def digit_def marker_def
  liti_def wordi_def js_def eval_nat_numeral

lemma led_SECTION_THEN_TITLE: "always_led 1 SECTION_THEN_TITLE"
  unfolding SECTION_THEN_TITLE_def section_token_Seq seqs.simps
  by (rule always_led_SeqR, rule always_led_SeqR, rule always_led_SeqR, rule always_led_SeqL,
      rule always_led_Group) (simp add: regex_defs)

lemma led_TITLE_THEN_SECTION: "always_led 2 TITLE_THEN_SECTION"
  unfolding TITLE_THEN_SECTION_def section_token_Seq seqs.simps
  by (rule always_led_SeqR, rule always_led_SeqR, rule always_led_SeqR, rule always_led_SeqR,
      rule always_led_SeqR, rule always_led_SeqL, rule always_led_Group) simp

lemma led_MACHINE_REF_THEN_TITLE: "always_led 1 MACHINE_REF_THEN_TITLE"
  unfolding MACHINE_REF_THEN_TITLE_def seqs.simps
  by (rule always_led_SeqR, rule always_led_SeqR, rule always_led_SeqL, rule always_led_Group)
     (simp add: regex_defs)

lemma led_LEGACY_ENGLISH: "always_led 1 LEGACY_ENGLISH"
  unfolding LEGACY_ENGLISH_def section_token_Seq seqs.simps
  by (rule always_led_SeqR, rule always_led_SeqR, rule always_led_SeqR, rule always_led_SeqL,
      rule always_led_Group) (simp add: regex_defs)

lemma led_BARE_SECTION: "always_led 1 BARE_SECTION"
  unfolding BARE_SECTION_def section_token_Seq seqs.simps
  by (rule always_led_SeqR, rule always_led_SeqR, rule always_led_SeqR, rule always_led_SeqL,
      rule always_led_Group) simp

lemma led_SECTION_REF: "always_led 1 SECTION_REF"
  unfolding SECTION_REF_def seqs.simps
  by (rule always_led_SeqR, rule always_led_SeqL, rule always_led_Group) (simp add: regex_defs)

lemma scan_matches:
  "scan r b xs = Some (b', t) \<Longrightarrow>
     \<exists>ys. t \<in> set (matches r (b', ys, Map.empty)) \<and> rev b' @ ys = rev b @ xs"
proof (induction xs arbitrary: b)
  case Nil
  then show ?case by (auto split: list.splits)
next
  case (Cons x xs)
  show ?case
  proof (cases "matches r (b, x # xs, Map.empty)")
    case Nil
    with Cons.prems have "scan r (x # b) xs = Some (b', t)" by simp
    from Cons.IH[OF this] show ?thesis by simp
  next
    case (Cons u us)
    with Cons.prems show ?thesis by auto
  qed
qed

lemma exec_matches:
  assumes "exec r s = Some m"
  shows "\<exists>b ys t. t \<in> set (matches r (b, ys, Map.empty)) \<and> rev b @ ys = s
           \<and> groups m = snd (snd t) \<and> pre m = rev b \<and> post m = fst (snd t)"
proof -
  from assms obtain b t where sc: "scan r [] s = Some (b, t)"
    by (auto simp: exec_def split: option.splits)
  with assms have m: "groups m = snd (snd t)" "pre m = rev b" "post m = fst (snd t)"
    by (auto simp: exec_def split: prod.splits)
  from scan_matches[OF sc] obtain ys where "t \<in> set (matches r (b, ys, Map.empty))"
      "rev b @ ys = s"
    by auto
  with m show ?thesis by blast
qed

lemma exec_always_led:
  "always_led k r \<Longrightarrow> exec r s = Some m \<Longrightarrow> digit_led (groups m k)"
  using exec_matches unfolding always_led_def by metis

section \<open>The parser: every result is an error record or a section record\<close>

lemma isDigit_not_isSpace: "isDigit x \<Longrightarrow> \<not> isSpace x"
  by (simp add: isDigit_def isSpace_def)

lemma trim_Cons_nonspace:
  assumes "\<not> isSpace x"
  shows "\<exists>ys. trim (x # xs) = x # ys"
proof -
  have "dropWhile isSpace (rev xs @ [x]) = dropWhile isSpace (rev xs) @ [x]"
    using assms by (induction "rev xs" arbitrary: xs) (auto simp: dropWhile_append)
  then show ?thesis using assms by (simp add: trim_def)
qed

lemma scan_Bol_None: "b \<noteq> [] \<Longrightarrow> scan (Seq Bol q) b xs = None"
  by (induction xs arbitrary: b) auto

lemma replace_PARA_PREFIX_digit:
  assumes "isDigit x"
  shows "replace PARA_PREFIX [] (x # xs) = x # xs"
proof -
  have "canonicalize x \<noteq> 80"
    using assms by (auto simp: isDigit_def canonicalize_def)
  then have "matches PARA_PREFIX ([], x # xs, Map.empty) = []"
    by (simp add: PARA_PREFIX_def liti_def wordi_def js_def chi_def canonicalize_def)
  then have "scan PARA_PREFIX [] (x # xs) = None"
    using scan_Bol_None[of "[x]" "liti ''para''" xs] by (simp add: PARA_PREFIX_def)
  then show ?thesis by (simp add: replace_def exec_def)
qed

lemma parseSection_section:
  assumes "digit_led (Some g)"
  shows "truthy (section' (parseSection g t y ty))"
proof -
  from assms obtain x xs where g: "g = x # xs" and x: "isDigit x"
    by (cases g) auto
  from trim_Cons_nonspace[OF isDigit_not_isSpace[OF x]] obtain ys
    where n: "trim (replace PARA_PREFIX [] g) = x # ys"
    unfolding g replace_PARA_PREFIX_digit[OF x] by blast
  show ?thesis
  proof (cases "exec SECTION_REF (x # ys)")
    case None
    with n show ?thesis by (simp add: parseSection_def)
  next
    case (Some m)
    from exec_always_led[OF led_SECTION_REF Some] obtain z zs where "groups m 1 = Some (z # zs)"
      by (cases "groups m 1" rule: digit_led.cases) auto
    with n Some show ?thesis by (simp add: parseSection_def)
  qed
qed

lemma parseSection_fields:
  "valid (parseSection g t y ty) \<and> type (parseSection g t y ty) = ty
     \<and> error (parseSection g t y ty) = None"
  by (simp add: parseSection_def Let_def)

lemma both_truthy_Some: "both_truthy e \<Longrightarrow> \<exists>m. e = Some m"
  by (cases e) (auto simp: both_truthy_def)

lemma digit_led_the: "digit_led g \<Longrightarrow> digit_led (Some (the g))"
  by (cases g rule: digit_led.cases) auto


lemma liti_para_consumes:
  assumes "u \<in> set (matches (liti ''para'') s)"
  shows "\<exists>v. length v = 4 \<and> fst (snd s) = v @ fst (snd u)"
proof -
  have l: "liti ''para'' = Seq (chi 112) (Seq (chi 97) (Seq (chi 114) (chi 97)))"
    by (simp add: liti_def wordi_def js_def)
  from assms obtain t1 t2 t3 where
      "t1 \<in> set (matches (chi 112) s)" "t2 \<in> set (matches (chi 97) t1)"
      "t3 \<in> set (matches (chi 114) t2)" "u \<in> set (matches (chi 97) t3)"
    unfolding l set_matches_Seq by blast
  then obtain x1 x2 x3 x4 where "fst (snd s) = x1 # fst (snd t1)" "fst (snd t1) = x2 # fst (snd t2)"
      "fst (snd t2) = x3 # fst (snd t3)" "fst (snd t3) = x4 # fst (snd u)"
    unfolding chi_def by (meson in_matches_Chr)
  then have "fst (snd s) = [x1, x2, x3, x4] @ fst (snd u)" by simp
  then show ?thesis by (intro exI[of _ "[x1, x2, x3, x4]"]) simp
qed

lemma BARE_MACHINE_REF_digit_led:
  assumes "test BARE_MACHINE_REF s"
  shows "digit_led (Some (drop 4 s))"
proof -
  from assms obtain m where "exec BARE_MACHINE_REF s = Some m"
    by (auto simp: test_def)
  from exec_matches[OF this] obtain b ys t where
      t: "t \<in> set (matches BARE_MACHINE_REF (b, ys, Map.empty))" and s: "rev b @ ys = s"
    by blast
  have r: "BARE_MACHINE_REF =
      Seq Bol (Seq (liti ''para'') (Seq (Plus digit) (Seq (Opt (Chr isAlphaI)) Eol)))"
    by (simp add: BARE_MACHINE_REF_def)
  from t obtain u0 u1 where u0: "u0 \<in> set (matches Bol (b, ys, Map.empty))"
      and u1: "u1 \<in> set (matches (liti ''para'') u0)"
      and t': "t \<in> set (matches (Seq (Plus digit) (Seq (Opt (Chr isAlphaI)) Eol)) u1)"
    unfolding r set_matches_Seq[of Bol] set_matches_Seq[of "liti ''para''"] by blast
  from u0 have b: "b = []" and u0': "u0 = ([], ys, Map.empty)"
    by (auto split: if_splits)
  from liti_para_consumes[OF u1] u0' obtain v where v: "length v = 4" "ys = v @ fst (snd u1)"
    by auto
  from Plus_digit_led[OF t'] obtain x w where x: "isDigit x" "fst (snd u1) = x # w @ fst (snd t)"
    by blast
  from s b v x have "s = v @ (x # w @ fst (snd t))" by simp
  then have "drop (length v) s = x # w @ fst (snd t)" by simp
  with v(1) x(1) show ?thesis by simp
qed

lemma parseCitation_cases:
  "(\<exists>msg. msg \<noteq> [] \<and> parseCitation x = Inr (invalid_citation msg))
   \<or> (\<exists>g t y. digit_led (Some g) \<and> parseCitation x = Inr (parseSection g t y statute))"
proof -
  let ?t = "trim x"
  consider (empty) "?t = []"
    | (f1) "?t \<noteq> []" "both_truthy (exec SECTION_THEN_TITLE ?t)"
    | (f2) "?t \<noteq> []" "\<not> both_truthy (exec SECTION_THEN_TITLE ?t)"
        "both_truthy (exec TITLE_THEN_SECTION ?t)"
    | (f3) "?t \<noteq> []" "\<not> both_truthy (exec SECTION_THEN_TITLE ?t)"
        "\<not> both_truthy (exec TITLE_THEN_SECTION ?t)"
        "both_truthy (exec MACHINE_REF_THEN_TITLE ?t)"
    | (f4) "?t \<noteq> []" "\<not> both_truthy (exec SECTION_THEN_TITLE ?t)"
        "\<not> both_truthy (exec TITLE_THEN_SECTION ?t)"
        "\<not> both_truthy (exec MACHINE_REF_THEN_TITLE ?t)"
        "both_truthy (exec LEGACY_ENGLISH ?t)"
    | (f5) "?t \<noteq> []" "\<not> both_truthy (exec SECTION_THEN_TITLE ?t)"
        "\<not> both_truthy (exec TITLE_THEN_SECTION ?t)"
        "\<not> both_truthy (exec MACHINE_REF_THEN_TITLE ?t)"
        "\<not> both_truthy (exec LEGACY_ENGLISH ?t)" "test BARE_MACHINE_REF ?t"
    | (f6) "?t \<noteq> []" "\<not> both_truthy (exec SECTION_THEN_TITLE ?t)"
        "\<not> both_truthy (exec TITLE_THEN_SECTION ?t)"
        "\<not> both_truthy (exec MACHINE_REF_THEN_TITLE ?t)"
        "\<not> both_truthy (exec LEGACY_ENGLISH ?t)" "\<not> test BARE_MACHINE_REF ?t"
    by blast
  then show ?thesis
  proof cases
    case empty
    then have "parseCitation x = Inr (invalid_citation (js ''Empty citation''))"
      by (simp add: parseCitation_def)
    then show ?thesis by (intro disjI1 exI[of _ "js ''Empty citation''"]) (simp add: js_def)
  next
    case f1
    from both_truthy_Some[OF f1(2)] obtain m where m: "exec SECTION_THEN_TITLE ?t = Some m" ..
    from exec_always_led[OF led_SECTION_THEN_TITLE m] have "digit_led (Some (the (groups m 1)))"
      by (rule digit_led_the)
    moreover from f1 m have "parseCitation x = Inr (parseSection (the (groups m 1))
        (Some (fst (splitYear (the (groups m 2))))) (snd (splitYear (the (groups m 2)))) statute)"
      by (simp add: parseCitation_def Let_def)
    ultimately show ?thesis by blast
  next
    case f2
    from both_truthy_Some[OF f2(3)] obtain m where m: "exec TITLE_THEN_SECTION ?t = Some m" ..
    from exec_always_led[OF led_TITLE_THEN_SECTION m] have "digit_led (Some (the (groups m 2)))"
      by (rule digit_led_the)
    moreover from f2 m have "parseCitation x = Inr (parseSection (the (groups m 2))
        (Some (fst (splitYear (the (groups m 1))))) (snd (splitYear (the (groups m 1)))) statute)"
      by (simp add: parseCitation_def Let_def)
    ultimately show ?thesis by blast
  next
    case f3
    from both_truthy_Some[OF f3(4)] obtain m where m: "exec MACHINE_REF_THEN_TITLE ?t = Some m" ..
    from exec_always_led[OF led_MACHINE_REF_THEN_TITLE m]
    have "digit_led (Some (the (groups m 1)))"
      by (rule digit_led_the)
    moreover from f3 m have "parseCitation x = Inr (parseSection (the (groups m 1))
        (Some (fst (splitYear (the (groups m 2))))) (snd (splitYear (the (groups m 2)))) statute)"
      by (simp add: parseCitation_def Let_def)
    ultimately show ?thesis by blast
  next
    case f4
    from both_truthy_Some[OF f4(5)] obtain m where m: "exec LEGACY_ENGLISH ?t = Some m" ..
    from exec_always_led[OF led_LEGACY_ENGLISH m] have "digit_led (Some (the (groups m 1)))"
      by (rule digit_led_the)
    moreover from f4 m have "parseCitation x = Inr (parseSection (the (groups m 1)) (groups m 2)
        (if truthy (groups m 3) then Some (parseInt (the (groups m 3))) else None) statute)"
      by (simp add: parseCitation_def Let_def)
    ultimately show ?thesis by blast
  next
    case f5
    from BARE_MACHINE_REF_digit_led[OF f5(6)] have "digit_led (Some (drop 4 ?t))" .
    moreover from f5 have "parseCitation x = Inr (parseSection (drop 4 ?t) None None statute)"
      by (simp add: parseCitation_def Let_def)
    ultimately show ?thesis by blast
  next
    case f6
    show ?thesis
    proof (cases "exec BARE_SECTION ?t")
      case None
      with f6 have "parseCitation x = Inr (invalid_citation
          (js ''Could not parse Austrian citation: '' @ [34] @ ?t @ [34]))"
        by (simp add: parseCitation_def Let_def)
      then show ?thesis by blast
    next
      case (Some m)
      from exec_always_led[OF led_BARE_SECTION Some] obtain z zs
        where g: "groups m 1 = Some (z # zs)" and z: "isDigit z"
        by (cases "groups m 1" rule: digit_led.cases) auto
      with f6 Some have "parseCitation x = Inr (parseSection (z # zs) None None statute)"
        by (simp add: parseCitation_def Let_def)
      with z show ?thesis by (intro disjI2 exI[of _ "z # zs"]) auto
    qed
  qed
qed

section \<open>Properties of the citation parser and formatter\<close>

text \<open>
  C7: the canonical form \<open>\<section> 3(1)(a), DSG\<close> round-trips. The parser reads section \<open>3\<close>,
  subsection \<open>1\<close>, paragraph \<open>a\<close> and title \<open>DSG\<close>, and the formatter, in the \<open>full\<close>
  style, renders them as the pinpoint, a comma and the title: exactly the input.
\<close>

theorem format_parse_canonical_roundtrip:
  "parseCitation (SECT # js '' 3(1)(a), DSG'') =
     Inr \<lparr>valid = True, type = statute, title = Some (js ''DSG''), year = None,
          section' = Some (js ''3''), subsection' = Some (js ''1''),
          paragraph' = Some (js ''a''), error = None\<rparr>
   \<and> formatCitation
         \<lparr>valid = True, type = statute, title = Some (js ''DSG''), year = None,
          section' = Some (js ''3''), subsection' = Some (js ''1''),
          paragraph' = Some (js ''a''), error = None\<rparr> full
       = SECT # js '' 3(1)(a), DSG''"
  by code_simp

theorem format_parse_canonical_roundtrip_witness:
  "formatCitation
     \<lparr>valid = True, type = statute, title = Some (js ''DSG''), year = None,
      section' = Some (js ''3''), subsection' = Some (js ''1''),
      paragraph' = Some (js ''a''), error = None\<rparr> full
   = SECT # js '' 3(1)(a), DSG''"
  using format_parse_canonical_roundtrip by simp

text \<open>
  C1: \<open>parseCitation\<close> returns a record for every input string and never raises. When
  the record is valid its section is present and not empty; when it is not valid its
  error is present and title, year, section, subsection and paragraph are absent.
\<close>

theorem parseCitation_invariant:
  "\<exists>p. parseCitation x = Inr p
     \<and> (valid p \<longrightarrow> truthy (section' p))
     \<and> (\<not> valid p \<longrightarrow> truthy (error p) \<and> title p = None \<and> year p = None \<and> section' p = None
           \<and> subsection' p = None \<and> paragraph' p = None)"
  using parseCitation_cases[of x] parseSection_section parseSection_fields
  by (auto simp: invalid_citation_def)

theorem parseCitation_invariant_witness:
  "(\<exists>p. parseCitation (js ''Paragraph 5, DSG'') = Inr p \<and> valid p \<and> truthy (section' p))
   \<and> (\<exists>p. parseCitation (js ''random gibberish'') = Inr p \<and> \<not> valid p \<and> truthy (error p)
          \<and> title p = None \<and> year p = None \<and> section' p = None \<and> subsection' p = None
          \<and> paragraph' p = None)"
proof -
  have a: "parseCitation (js ''Paragraph 5, DSG'') =
      Inr \<lparr>valid = True, type = statute, title = Some (js ''DSG''), year = None,
           section' = Some (js ''5''), subsection' = None, paragraph' = None, error = None\<rparr>"
    by code_simp
  have b: "parseCitation (js ''random gibberish'') =
      Inr (invalid_citation (js ''Could not parse Austrian citation: '' @ [34]
             @ js ''random gibberish'' @ [34]))"
    by code_simp
  from parseCitation_invariant[of "js ''Paragraph 5, DSG''"] a have 1:
    "\<exists>p. parseCitation (js ''Paragraph 5, DSG'') = Inr p \<and> valid p \<and> truthy (section' p)"
    by auto
  from parseCitation_invariant[of "js ''random gibberish''"] b have 2:
    "\<exists>p. parseCitation (js ''random gibberish'') = Inr p \<and> \<not> valid p \<and> truthy (error p)
          \<and> title p = None \<and> year p = None \<and> section' p = None \<and> subsection' p = None
          \<and> paragraph' p = None"
    by (auto simp: invalid_citation_def)
  from 1 2 show ?thesis by blast
qed

text \<open>
  C10: no result of \<open>parseCitation\<close> has the type \<open>statutory_instrument\<close>: a valid result
  has the type \<open>statute\<close> and a result that is not valid has the type \<open>unknown\<close>.
\<close>

theorem parseCitation_type:
  "\<exists>p. parseCitation x = Inr p \<and> type p \<noteq> statutory_instrument
     \<and> (valid p \<longrightarrow> type p = statute) \<and> (\<not> valid p \<longrightarrow> type p = unknown)"
  using parseCitation_cases[of x] parseSection_fields
  by (auto simp: invalid_citation_def)

theorem parseCitation_type_witness:
  "(\<exists>p. parseCitation (js ''para4a, ABGB'') = Inr p \<and> valid p \<and> type p = statute)
   \<and> (\<exists>p. parseCitation (js ''statutory instrument 5'') = Inr p \<and> \<not> valid p \<and> type p = unknown)"
proof -
  have a: "parseCitation (js ''para4a, ABGB'') =
      Inr \<lparr>valid = True, type = statute, title = Some (js ''ABGB''), year = None,
           section' = Some (js ''4a''), subsection' = None, paragraph' = None, error = None\<rparr>"
    by code_simp
  have b: "parseCitation (js ''statutory instrument 5'') =
      Inr (invalid_citation (js ''Could not parse Austrian citation: '' @ [34]
             @ js ''statutory instrument 5'' @ [34]))"
    by code_simp
  from parseCitation_type[of "js ''para4a, ABGB''"] a have 1:
    "\<exists>p. parseCitation (js ''para4a, ABGB'') = Inr p \<and> valid p \<and> type p = statute"
    by auto
  from parseCitation_type[of "js ''statutory instrument 5''"] b have 2:
    "\<exists>p. parseCitation (js ''statutory instrument 5'') = Inr p \<and> \<not> valid p \<and> type p = unknown"
    by (auto simp: invalid_citation_def)
  from 1 2 show ?thesis by blast
qed

text \<open>
  C8: formatting a failed parse is a no-op. An input that is empty or holds white space
  only parses to a record that is not valid and whose error contains \<open>Empty\<close>, and
  the formatter returns the empty string, in every style, for every citation that is
  not valid or has no section.
\<close>

theorem formatCitation_failed_parse:
  "((\<forall>c \<in> set x. isSpace c) \<longrightarrow>
      (\<exists>p e. parseCitation x = Inr p \<and> \<not> valid p \<and> error p = Some e
         \<and> includes_str e (js ''Empty'') \<and> formatCitation p fmt = []))
   \<and> ((\<not> valid q \<or> \<not> truthy (section' q)) \<longrightarrow> formatCitation q fmt = [])"
proof (intro conjI impI)
  assume "\<forall>c \<in> set x. isSpace c"
  then have d: "dropWhile isSpace x = []" by simp
  have "trim x = []" unfolding trim_def d by simp
  then have p: "parseCitation x = Inr (invalid_citation (js ''Empty citation''))"
    by (simp add: parseCitation_def)
  have "includes_str (js ''Empty citation'') (js ''Empty'')" by code_simp
  with p show "\<exists>p e. parseCitation x = Inr p \<and> \<not> valid p \<and> error p = Some e
         \<and> includes_str e (js ''Empty'') \<and> formatCitation p fmt = []"
    by (simp add: invalid_citation_def formatCitation_def)
next
  assume "\<not> valid q \<or> \<not> truthy (section' q)"
  then show "formatCitation q fmt = []" by (auto simp: formatCitation_def)
qed

theorem formatCitation_failed_parse_witness:
  "(\<exists>p e. parseCitation (js ''   '') = Inr p \<and> \<not> valid p \<and> error p = Some e
       \<and> includes_str e (js ''Empty'') \<and> formatCitation p short = [])
   \<and> formatCitation \<lparr>valid = True, type = statute, title = Some (js ''ABGB''), year = None,
         section' = None, subsection' = None, paragraph' = None, error = None\<rparr> short = []"
proof -
  have "\<forall>c \<in> set (js ''   ''). isSpace c" by (simp add: js_def isSpace_def)
  with formatCitation_failed_parse[of "js ''   ''" short
      "\<lparr>valid = True, type = statute, title = Some (js ''ABGB''), year = None,
         section' = None, subsection' = None, paragraph' = None, error = None\<rparr>"]
  show ?thesis by simp
qed

section \<open>Properties of the candidate builder and the validator\<close>

text \<open>
  C9: on the empty string the candidate builder returns the empty candidate set, and
  on \<open>\<section> 4a\<close> it returns the canonical section \<open>4a\<close>, with \<open>4a\<close> among the sections and
  \<open>para4a\<close> among the provision references, whatever the case variants are.
\<close>

theorem buildProvisionLookupCandidates_examples:
  "buildProvisionLookupCandidates caseVariants [] =
     \<lparr>canonicalSection = [], provisionRefs = [], sections = []\<rparr>
   \<and> canonicalSection (buildProvisionLookupCandidates caseVariants (SECT # js '' 4a'')) = js ''4a''
   \<and> js ''4a'' \<in> set (sections (buildProvisionLookupCandidates caseVariants (SECT # js '' 4a'')))
   \<and> js ''para4a'' \<in> set (provisionRefs (buildProvisionLookupCandidates caseVariants (SECT # js '' 4a'')))"
proof -
  have c: "trim (replace CANDIDATE_MARKER [] (trim (SECT # js '' 4a''))) = js ''4a''"
    by code_simp
  have n: "SECT # js '' 4a'' \<noteq> []" by simp
  show ?thesis
    unfolding buildProvisionLookupCandidates_def Let_def c using n by (simp add: js_def)
qed

theorem buildProvisionLookupCandidates_examples_witness:
  "buildProvisionLookupCandidates (\<lambda>c. [js ''PARA'' @ c]) (SECT # js '' 4a'') =
     \<lparr>canonicalSection = js ''4a'', provisionRefs = [js ''para4a'', js ''PARA4a''],
      sections = [SECT # js '' 4a'', js ''4a'']\<rparr>
   \<and> js ''para4a'' \<in> set (provisionRefs
         (buildProvisionLookupCandidates (\<lambda>c. [js ''PARA'' @ c]) (SECT # js '' 4a'')))"
proof -
  have "buildProvisionLookupCandidates (\<lambda>c. [js ''PARA'' @ c]) (SECT # js '' 4a'') =
     \<lparr>canonicalSection = js ''4a'', provisionRefs = [js ''para4a'', js ''PARA4a''],
      sections = [SECT # js '' 4a'', js ''4a'']\<rparr>"
    by code_simp
  with buildProvisionLookupCandidates_examples[of "\<lambda>c. [js ''PARA'' @ c]"] show ?thesis
    by simp
qed

lemma parseCitation_total: "\<exists>p. parseCitation x = Inr p"
  using parseCitation_cases[of x] by blast

lemma invalid_error_Some:
  assumes "parseCitation x = Inr p" "\<not> valid p"
  shows "\<exists>e. error p = Some e"
  using parseCitation_cases[of x] assms parseSection_fields
  by (auto simp: invalid_citation_def)

text \<open>
  C5: in every result of \<open>validateCitation\<close> the provision exists only when the
  document exists. The early exits return a result, and both flags are false in it: a
  citation that does not parse (the parser's error is the only warning), one without a
  title or statute ID, and one whose document is not found.
\<close>

theorem validateCitation_flags:
  "\<exists>p. parseCitation cit = Inr p
     \<and> (\<forall>r. validateCitation resolveId buildCandidates db cit = Inr r \<longrightarrow>
           (provision_exists r \<longrightarrow> document_exists r))
     \<and> (\<not> valid p \<longrightarrow>
           validateCitation resolveId buildCandidates db cit =
             Inr \<lparr>citation = p, document_exists = False, provision_exists = False,
                  document_title = None, status = None, warnings = [the (error p)]\<rparr>)
     \<and> (valid p \<and> (\<not> truthy (lookupTerm p cit)
                     \<or> lookupDocument resolveId db (the (lookupTerm p cit)) = None) \<longrightarrow>
           (\<exists>r. validateCitation resolveId buildCandidates db cit = Inr r
                \<and> \<not> document_exists r \<and> \<not> provision_exists r))"
proof -
  from parseCitation_total obtain p where p: "parseCitation cit = Inr p" by blast
  have 1: "\<forall>r. validateCitation resolveId buildCandidates db cit = Inr r \<longrightarrow>
           (provision_exists r \<longrightarrow> document_exists r)"
    using p by (auto simp: validateCitation_def Let_def split: option.splits sum.splits if_splits)
  have 2: "\<not> valid p \<longrightarrow>
           validateCitation resolveId buildCandidates db cit =
             Inr \<lparr>citation = p, document_exists = False, provision_exists = False,
                  document_title = None, status = None, warnings = [the (error p)]\<rparr>"
    using p invalid_error_Some[OF p] by (auto simp: validateCitation_def)
  have 3: "valid p \<and> (\<not> truthy (lookupTerm p cit)
                     \<or> lookupDocument resolveId db (the (lookupTerm p cit)) = None) \<longrightarrow>
           (\<exists>r. validateCitation resolveId buildCandidates db cit = Inr r
                \<and> \<not> document_exists r \<and> \<not> provision_exists r)"
    using p by (auto simp: validateCitation_def)
  show ?thesis
    by (rule exI[of _ p], intro conjI) (rule p, rule 1, rule 2, rule 3)
qed

theorem validateCitation_flags_witness:
  "(\<exists>r. validateCitation (\<lambda>db t. Some (js ''gesetz-1''))
          (buildProvisionLookupCandidates (\<lambda>c. []))
          \<lparr>legal_documents = [\<lparr>doc_id = js ''gesetz-1'', doc_title = js ''DSG'',
                                doc_status = js ''in_force''\<rparr>],
           legal_provisions = [\<lparr>document_id = js ''gesetz-1'', provision_ref = js ''para5'',
                                 provision_section = js ''5''\<rparr>]\<rparr>
          (js ''Paragraph 5, DSG'') = Inr r
        \<and> provision_exists r \<and> document_exists r)
   \<and> (\<exists>r. validateCitation (\<lambda>db t. Some (js ''gesetz-1''))
          (buildProvisionLookupCandidates (\<lambda>c. []))
          \<lparr>legal_documents = [\<lparr>doc_id = js ''gesetz-1'', doc_title = js ''DSG'',
                                doc_status = js ''in_force''\<rparr>],
           legal_provisions = [\<lparr>document_id = js ''gesetz-1'', provision_ref = js ''para5'',
                                 provision_section = js ''5''\<rparr>]\<rparr>
          (js ''random gibberish'') = Inr r
        \<and> \<not> provision_exists r \<and> \<not> document_exists r)"
proof -
  let ?R = "\<lambda>(db :: Database) (t :: jsstring). Some (js ''gesetz-1'')"
  let ?C = "buildProvisionLookupCandidates (\<lambda>c. [])"
  let ?db = "\<lparr>legal_documents = [\<lparr>doc_id = js ''gesetz-1'', doc_title = js ''DSG'',
                                doc_status = js ''in_force''\<rparr>],
           legal_provisions = [\<lparr>document_id = js ''gesetz-1'', provision_ref = js ''para5'',
                                 provision_section = js ''5''\<rparr>]\<rparr>"
  have a: "validateCitation ?R ?C ?db (js ''Paragraph 5, DSG'') =
      Inr \<lparr>citation = \<lparr>valid = True, type = statute, title = Some (js ''DSG''), year = None,
                 section' = Some (js ''5''), subsection' = None, paragraph' = None,
                 error = None\<rparr>,
           document_exists = True, provision_exists = True, document_title = Some (js ''DSG''),
           status = Some (js ''in_force''), warnings = []\<rparr>"
    by code_simp
  have b: "validateCitation ?R ?C ?db (js ''random gibberish'') =
      Inr \<lparr>citation = invalid_citation (js ''Could not parse Austrian citation: '' @ [34]
                          @ js ''random gibberish'' @ [34]),
           document_exists = False, provision_exists = False, document_title = None,
           status = None,
           warnings = [js ''Could not parse Austrian citation: '' @ [34]
                          @ js ''random gibberish'' @ [34]]\<rparr>"
    by code_simp
  from validateCitation_flags[of "js ''Paragraph 5, DSG''" ?R ?C ?db] a
  have 1: "\<exists>r. validateCitation ?R ?C ?db (js ''Paragraph 5, DSG'') = Inr r
        \<and> provision_exists r \<and> document_exists r"
    by simp
  from b have 2: "\<exists>r. validateCitation ?R ?C ?db (js ''random gibberish'') = Inr r
        \<and> \<not> provision_exists r \<and> \<not> document_exists r"
    by simp
  from 1 2 show ?thesis by (rule conjI)
qed

section \<open>Properties of the full-text query builder\<close>

















section \<open>Properties of the content cleaner\<close>

declare pop_keywords.simps [simp del]

lemma isKeywordLine_function_word: "test FUNCTION_WORD l \<Longrightarrow> \<not> isKeywordLine l"
  by (simp add: isKeywordLine_def)

lemma pop_keywords_Nil: "pop_keywords [] = []"
  by (subst pop_keywords.simps) simp

lemma pop_keywords_snoc:
  "pop_keywords (ys @ [y]) = (if isKeywordLine (trim y) then pop_keywords ys else ys @ [y])"
  by (subst pop_keywords.simps) simp

lemma pop_keywords_stop:
  "\<not> isKeywordLine (trim l) \<Longrightarrow> pop_keywords (ps @ l # suf) = ps @ l # pop_keywords suf"
proof (induction suf rule: rev_induct)
  case Nil
  then show ?case using pop_keywords_snoc[of ps l] by (simp add: pop_keywords_Nil)
next
  case (snoc y ys)
  have "pop_keywords (ps @ l # ys @ [y]) = pop_keywords ((ps @ l # ys) @ [y])" by simp
  also have "\<dots> = (if isKeywordLine (trim y) then pop_keywords (ps @ l # ys)
                    else (ps @ l # ys) @ [y])"
    by (rule pop_keywords_snoc)
  finally show ?case using snoc by (simp add: pop_keywords_snoc)
qed

text \<open>
  The function-word test finds every standalone occurrence of a word that begins and
  ends with an ASCII letter: the pattern has a match wherever the word stands, in any
  letter case, between characters that are not word characters or the ends of the line.
\<close>

lemma last_dropWhile: "dropWhile P xs \<noteq> [] \<Longrightarrow> last (dropWhile P xs) = last xs"
  by (induction xs) (auto split: if_splits)

lemma matches_seqs_Cons:
  "matches (seqs (r # rs)) s = concat (map (matches (seqs rs)) (matches r s))"
proof (cases rs)
  case Nil
  have "matches Eps = (\<lambda>t. [t])" by (rule ext) simp
  with Nil show ?thesis by simp
next
  case (Cons q qs)
  then show ?thesis by simp
qed

lemma matches_alts:
  "r \<in> set rs \<Longrightarrow> set (matches r s) \<subseteq> set (matches (alts rs) s)"
  by (induction rs rule: alts.induct) auto

lemma wordi_complete:
  "map canonicalize V = map canonicalize W \<Longrightarrow>
     (rev V @ b, V' , c) \<in> set (matches (wordi W) (b, V @ V', c))"
proof (induction W arbitrary: V b)
  case Nil
  then show ?case by (simp add: wordi_def)
next
  case (Cons w ws)
  from Cons.prems obtain v vs where V: "V = v # vs" "canonicalize v = canonicalize w"
      "map canonicalize vs = map canonicalize ws"
    by (cases V) auto
  have "(rev vs @ v # b, V', c) \<in> set (matches (wordi ws) (v # b, vs @ V', c))"
    by (rule Cons.IH[OF V(3)])
  then show ?case
    unfolding wordi_def list.map matches_seqs_Cons using V by (simp add: chi_def)
qed

lemma scan_complete:
  "matches r (rev A @ b, s, Map.empty) \<noteq> [] \<Longrightarrow> scan r b (A @ s) \<noteq> None"
proof (induction A arbitrary: b)
  case Nil
  then show ?case by (cases s) (auto split: list.splits)
next
  case (Cons a A)
  from Cons.prems have "matches r (rev A @ a # b, s, Map.empty) \<noteq> []" by simp
  from Cons.IH[OF this] show ?case by (auto split: list.splits)
qed

lemma test_at:
  assumes "matches r (rev A, s, Map.empty) \<noteq> []"
  shows "test r (A @ s)"
proof -
  from assms have "scan r [] (A @ s) \<noteq> None" using scan_complete[of r A "[]" s] by simp
  then show ?thesis by (auto simp: test_def exec_def split: option.splits)
qed

lemma canonicalize_toLowerDE: "canonicalize (toLowerDE v) = canonicalize v"
  by (auto simp: canonicalize_def toLowerDE_def isUpperDE_def)

lemma toLowerDE_ascii:
  "97 \<le> toLowerDE v \<Longrightarrow> toLowerDE v \<le> 122 \<Longrightarrow> isWordChar v \<and> \<not> isSpace v"
  by (auto simp: toLowerDE_def isUpperDE_def isWordChar_def isSpace_def split: if_splits)

lemma standalone_function_words_edges:
  "W \<in> set standalone_function_words \<Longrightarrow>
     W \<noteq> [] \<and> 97 \<le> hd W \<and> hd W \<le> 122 \<and> 97 \<le> last W \<and> last W \<le> 122"
  by (auto simp: standalone_function_words_def js_def)

lemma function_word_edges:
  assumes "W \<in> set standalone_function_words" and "map toLowerDE V = W"
  shows "V \<noteq> [] \<and> isWordChar (hd V) \<and> isWordChar (last V)
           \<and> \<not> isSpace (hd V) \<and> \<not> isSpace (last V)"
proof -
  from standalone_function_words_edges[OF assms(1)]
  have w: "W \<noteq> []" "97 \<le> hd W" "hd W \<le> 122" "97 \<le> last W" "last W \<le> 122"
    by simp_all
  from w(1) assms(2) have ne: "V \<noteq> []" by auto
  from ne assms(2) have "hd W = toLowerDE (hd V)" "last W = toLowerDE (last V)"
    by (auto simp: hd_map last_map)
  with w have "97 \<le> toLowerDE (hd V)" "toLowerDE (hd V) \<le> 122"
      "97 \<le> toLowerDE (last V)" "toLowerDE (last V) \<le> 122"
    by simp_all
  with ne toLowerDE_ascii[of "hd V"] toLowerDE_ascii[of "last V"] show ?thesis by simp
qed

lemma function_word_alternative:
  assumes "W \<in> set standalone_function_words"
  shows "\<exists>q. FUNCTION_WORD = Seq WordB (Seq q WordB)
           \<and> (\<forall>s. set (matches (wordi W) s) \<subseteq> set (matches q s))"
proof -
  let ?rs = "[liti ''ist'', liti ''sind'', liti ''wird'', liti ''werden'', liti ''hat'',
                 liti ''haben'', liti ''kann'', wordi (js ''k'' @ [246] @ js ''nnen''),
                 liti ''soll'', liti ''sollen'', liti ''darf'',
                 wordi (js ''d'' @ [252] @ js ''rfen''), liti ''muss'',
                 wordi (js ''m'' @ [252] @ js ''ssen''), wordi (js ''gem'' @ [228, 223]),
                 liti ''nach'', liti ''durch'', liti ''auf'', wordi ([252] @ js ''ber''),
                 liti ''bei'', liti ''unter'']"
  have a: "FUNCTION_WORD = Seq WordB (Seq (alts ?rs) WordB)"
    unfolding FUNCTION_WORD_def by simp
  from assms have "wordi W \<in> set ?rs"
    unfolding standalone_function_words_def liti_def by auto
  then have "\<forall>s. set (matches (wordi W) s) \<subseteq> set (matches (alts ?rs) s)"
    using matches_alts by blast
  with a show ?thesis by blast
qed

lemma wordAt_rev: "wordAt (rev A) = (A \<noteq> [] \<and> isWordChar (last A))"
  by (cases A rule: rev_cases) simp_all

lemma wordAt_hd: "wordAt B = (B \<noteq> [] \<and> isWordChar (hd B))"
  by (cases B) simp_all

lemma dropWhile_before:
  "V \<noteq> [] \<Longrightarrow> \<not> P (hd V) \<Longrightarrow> dropWhile P (A @ V @ B) = dropWhile P A @ V @ B"
  by (cases V) (simp_all add: dropWhile_append)

lemma trim_around:
  assumes "V \<noteq> []" "\<not> isSpace (hd V)" "\<not> isSpace (last V)"
  shows "trim (A @ V @ B) = dropWhile isSpace A @ V @ rev (dropWhile isSpace (rev B))"
proof -
  have 1: "dropWhile isSpace (A @ V @ B) = dropWhile isSpace A @ V @ B"
    using assms by (simp add: dropWhile_before)
  have 2: "rev (dropWhile isSpace A @ V @ B) = rev B @ rev V @ rev (dropWhile isSpace A)"
    by simp
  have 3: "dropWhile isSpace (rev B @ rev V @ rev (dropWhile isSpace A))
         = dropWhile isSpace (rev B) @ rev V @ rev (dropWhile isSpace A)"
    using assms by (intro dropWhile_before) (simp_all add: hd_rev)
  show ?thesis unfolding trim_def 1 2 3 by simp
qed

lemma function_word_found:
  assumes W: "W \<in> set standalone_function_words"
    and V: "map toLowerDE V = W"
    and A: "A = [] \<or> \<not> isWordChar (last A)"
    and B: "B = [] \<or> \<not> isWordChar (hd B)"
  shows "test FUNCTION_WORD (A @ V @ B)"
proof -
  from function_word_edges[OF W V]
  have ne: "V \<noteq> []" and e: "isWordChar (hd V)" "isWordChar (last V)" by simp_all
  have "map canonicalize (map toLowerDE V) = map canonicalize V"
    by (simp add: canonicalize_toLowerDE)
  with V have cv: "map canonicalize V = map canonicalize W" by simp
  from function_word_alternative[OF W] obtain q where
    fw: "FUNCTION_WORD = Seq WordB (Seq q WordB)"
    and q: "\<And>s. set (matches (wordi W) s) \<subseteq> set (matches q s)"
    by blast
  let ?s = "(rev A, V @ B, Map.empty) :: mstate"
  let ?t = "(rev V @ rev A, B, Map.empty) :: mstate"
  have wa: "\<not> wordAt (rev A)" using A by (simp add: wordAt_rev)
  have wv: "wordAt (V @ B)" using e ne by (simp add: wordAt_hd)
  have "rev V @ rev A = rev (A @ V)" by simp
  then have wl: "wordAt (rev V @ rev A)" using e ne by (simp only: wordAt_rev) simp
  have wb: "\<not> wordAt B" using B by (simp add: wordAt_hd)
  have 1: "matches WordB ?s = [?s]"
    using wa wv by simp
  have 2: "?t \<in> set (matches q ?s)"
    using wordi_complete[OF cv, of "rev A" B Map.empty] q by blast
  have 3: "matches WordB ?t = [?t]"
    using wl wb by simp
  from 3 have "?t \<in> set (matches WordB ?t)" by simp
  with 2 have "?t \<in> set (matches (Seq q WordB) ?s)"
    unfolding in_matches_Seq by (rule bexI[rotated])
  with 1 have "?t \<in> set (matches FUNCTION_WORD ?s)" unfolding fw by simp
  then have "matches FUNCTION_WORD ?s \<noteq> []" by auto
  then show ?thesis by (rule test_at)
qed

lemma function_word_found_trim:
  assumes W: "W \<in> set standalone_function_words"
    and V: "map toLowerDE V = W"
    and A: "A = [] \<or> \<not> isWordChar (last A)"
    and B: "B = [] \<or> \<not> isWordChar (hd B)"
  shows "test FUNCTION_WORD (trim (A @ V @ B))"
proof -
  from function_word_edges[OF W V]
  have ne: "V \<noteq> []" and e: "\<not> isSpace (hd V)" "\<not> isSpace (last V)" by simp_all
  let ?A = "dropWhile isSpace A"
  let ?B = "rev (dropWhile isSpace (rev B))"
  have t: "trim (A @ V @ B) = ?A @ V @ ?B" using ne e by (rule trim_around)
  have A': "?A = [] \<or> \<not> isWordChar (last ?A)"
  proof (cases "?A = []")
    case True
    then show ?thesis by (rule disjI1)
  next
    case False
    then have "last ?A = last A" by (rule last_dropWhile)
    moreover from False have "A \<noteq> []" by auto
    ultimately show ?thesis using A by simp
  qed
  have B': "?B = [] \<or> \<not> isWordChar (hd ?B)"
  proof (cases "dropWhile isSpace (rev B) = []")
    case True
    then show ?thesis by simp
  next
    case False
    then have "last (dropWhile isSpace (rev B)) = last (rev B)" by (rule last_dropWhile)
    moreover from False have "B \<noteq> []" by auto
    ultimately have "hd ?B = hd B" using False by (simp add: hd_rev last_rev)
    with B \<open>B \<noteq> []\<close> show ?thesis by simp
  qed
  show ?thesis unfolding t using W V A' B' by (rule function_word_found)
qed

text \<open>
  C4, as amended. Let a line hold one of the function words \<open>ist\<close>, \<open>sind\<close>, \<open>wird\<close>,
  \<open>werden\<close>, \<open>hat\<close>, \<open>haben\<close>, \<open>kann\<close>, \<open>soll\<close>, \<open>sollen\<close>, \<open>darf\<close>, \<open>muss\<close>, \<open>nach\<close>,
  \<open>durch\<close>, \<open>auf\<close>, \<open>bei\<close>, \<open>unter\<close> and the three with an umlaut inside, in any letter
  case, as a whole word: the line is \<open>A @ V @ B\<close>, where \<open>V\<close> spells the word and the
  characters next to it, if any, are not ASCII letters, digits or underscores. Then the
  line is not a keyword line, also when it is a comma-separated list, and the keyword
  pass stops at it: the line and all lines before it stay. The first pass is not bound by
  this, and nothing is said about the two listed words that begin or end with a letter
  outside ASCII.
\<close>

theorem pop_keywords_keeps_function_word_line:
  assumes "W \<in> set standalone_function_words"
    and "map toLowerDE V = W"
    and "A = [] \<or> \<not> isWordChar (last A)"
    and "B = [] \<or> \<not> isWordChar (hd B)"
  shows "\<not> isKeywordLine (trim (A @ V @ B))
       \<and> pop_keywords (ps @ (A @ V @ B) # suf) = ps @ (A @ V @ B) # pop_keywords suf"
proof -
  have "test FUNCTION_WORD (trim (A @ V @ B))" using assms by (rule function_word_found_trim)
  then have k: "\<not> isKeywordLine (trim (A @ V @ B))" by (rule isKeywordLine_function_word)
  from k pop_keywords_stop[OF k] show ?thesis by (rule conjI)
qed


text \<open>
  The claim as stated fails on a line that ends in a publication reference: it is
  deleted by the first pass although it holds \<open>ist\<close>.
\<close>

theorem cleanProvisionContent_function_word_counterexample:
  "test FUNCTION_WORD (js ''Dies ist neu, BGBl. Nr. 5'')
   \<and> cleanProvisionContent (js ''Text.'' @ [10] @ js ''Dies ist neu, BGBl. Nr. 5'') = js ''Text.''"
  by code_simp

theorem pop_keywords_keeps_function_word_line_witness:
  "test KEYWORD_LINE_PATTERN (js ''Banken, Aufsicht DURCH Bund, Recht'')
   \<and> \<not> isKeywordLine (js ''Banken, Aufsicht DURCH Bund, Recht'')
   \<and> pop_keywords [js ''Text.'', js ''Banken, Aufsicht DURCH Bund, Recht'', js ''A, B, C'']
       = [js ''Text.'', js ''Banken, Aufsicht DURCH Bund, Recht'']"
proof -
  have a: "js ''durch'' \<in> set standalone_function_words" by code_simp
  have b: "map toLowerDE (js ''DURCH'') = js ''durch''" by code_simp
  have c: "js ''Banken, Aufsicht '' = [] \<or> \<not> isWordChar (last (js ''Banken, Aufsicht ''))"
    by code_simp
  have d: "js '' Bund, Recht'' = [] \<or> \<not> isWordChar (hd (js '' Bund, Recht''))"
    by code_simp
  have e: "js ''Banken, Aufsicht '' @ js ''DURCH'' @ js '' Bund, Recht''
      = js ''Banken, Aufsicht DURCH Bund, Recht''"
    by (simp add: js_def)
  have f: "trim (js ''Banken, Aufsicht DURCH Bund, Recht'')
      = js ''Banken, Aufsicht DURCH Bund, Recht''"
    by code_simp
  have g: "pop_keywords [js ''A, B, C''] = []" by code_simp
  have h: "test KEYWORD_LINE_PATTERN (js ''Banken, Aufsicht DURCH Bund, Recht'')"
    by code_simp
  from pop_keywords_keeps_function_word_line[OF a b c d, of "[js ''Text.'']" "[js ''A, B, C'']"]
  show ?thesis unfolding e f g using h by simp
qed

text \<open>
  The word boundary \<open>\b\<close> of the test is decided by ASCII word characters alone. The word
  spelt \<open>[252] @ js ''ber''\<close> begins, and \<open>js ''gem'' @ [228, 223]\<close> ends, with a letter that is
  none, so between white space there is no boundary at that end and the test does not
  find the word: a comma-separated line that holds one of them as its only function word
  is a keyword line, and the keyword pass removes it.
\<close>

lemma isKeywordLine_non_ascii_edge:
  "isKeywordLine (js ''Aufsicht '' @ [252] @ js ''ber Banken, Finanzmarkt, Recht'')
   \<and> isKeywordLine (js ''Rechte gem'' @ [228, 223] @ js '' Vertrag, Pflichten, Fristen'')
   \<and> cleanProvisionContent
         (js ''Text.'' @ [10] @ js ''Aufsicht '' @ [252] @ js ''ber Banken, Finanzmarkt, Recht'')
       = js ''Text.''"
  by code_simp

section \<open>The content cleaner: fixed points\<close>

text \<open>The equation of \<open>replaceAll\<close> is unfolded by hand.\<close>

declare replaceAll.simps [simp del]

lemma trim_ends:
  assumes "trim s \<noteq> []"
  shows "\<not> isSpace (hd (trim s)) \<and> \<not> isSpace (last (trim s))"
proof -
  let ?u = "dropWhile isSpace s"
  let ?v = "dropWhile isSpace (rev ?u)"
  from assms have v: "?v \<noteq> []" by (simp add: trim_def)
  have u: "?u \<noteq> []"
  proof
    assume a: "?u = []"
    have "?v = []" unfolding a by simp
    with v show False by contradiction
  qed
  from v have "\<not> isSpace (hd ?v)" by (rule hd_dropWhile)
  then have 1: "\<not> isSpace (last (trim s))" using v by (simp add: trim_def last_rev)
  from last_dropWhile[OF v] have "last ?v = hd ?u" using u by (simp add: last_rev)
  moreover from u have "\<not> isSpace (hd ?u)" by (rule hd_dropWhile)
  ultimately have "\<not> isSpace (hd (trim s))" using v by (simp add: trim_def hd_rev)
  with 1 show ?thesis by simp
qed

lemma trim_fix:
  assumes "t \<noteq> []" "\<not> isSpace (hd t)" "\<not> isSpace (last t)"
  shows "trim t = t"
proof -
  from assms have 1: "dropWhile isSpace t = t" by (cases t) auto
  from assms have "rev t \<noteq> []" "\<not> isSpace (hd (rev t))" by (simp_all add: hd_rev)
  then have "dropWhile isSpace (rev t) = rev t" by (cases "rev t") auto
  with 1 show ?thesis by (simp add: trim_def)
qed

lemma trim_idem: "trim (trim s) = trim s"
proof (cases "trim s = []")
  case True
  have "trim [] = []" by (simp add: trim_def)
  with True show ?thesis by simp
next
  case False
  with trim_ends[OF False] show ?thesis by (intro trim_fix) auto
qed

lemma split_on_nonempty: "split_on d s \<noteq> []"
  by (induction s) (auto split: list.splits)

lemma join_Cons: "rest \<noteq> [] \<Longrightarrow> join sep (l # rest) = l @ sep @ join sep rest"
  by (cases rest) auto

lemma join_split_on: "join [d] (split_on d s) = s"
proof (induction s)
  case Nil
  then show ?case by simp
next
  case (Cons x xs)
  obtain y ys where sp: "split_on d xs = y # ys"
    using split_on_nonempty[of d xs] by (cases "split_on d xs") auto
  show ?case
  proof (cases "x = d")
    case True
    with Cons sp show ?thesis by (simp add: join_Cons)
  next
    case False
    with Cons sp show ?thesis by (cases ys) auto
  qed
qed

lemma split_on_double:
  "[] \<in> set (tl (split_on d (ys @ d # d # zs)))"
proof (induction ys)
  case Nil
  then show ?case by simp
next
  case (Cons y ys)
  obtain h t where sp: "split_on d (ys @ d # d # zs) = h # t"
    using split_on_nonempty[of d "ys @ d # d # zs"] by (cases "split_on d (ys @ d # d # zs)") auto
  with Cons show ?case by (auto dest: list.set_sel(2))
qed

lemma no_double_separator:
  assumes "\<forall>l \<in> set (split_on d s). l \<noteq> []"
  shows "s \<noteq> ys @ d # d # zs"
proof
  assume "s = ys @ d # d # zs"
  with split_on_double[of d ys zs] have "[] \<in> set (tl (split_on d s))" by simp
  then have "[] \<in> set (split_on d s)" by (rule list.set_sel(2)[rotated]) (simp add: split_on_nonempty)
  with assms show False by blast
qed

lemma NEWLINES3_prefix:
  assumes "matches (atLeast_times 3 (ch 10)) (b, s, c) \<noteq> []"
  shows "\<exists>r. s = 10 # 10 # 10 # r"
proof -
  have e: "atLeast_times 3 (ch 10) = Seq (Seq (ch 10) (Seq (ch 10) (ch 10))) (Star (ch 10))"
    by (simp add: atLeast_times_def eval_nat_numeral)
  from assms obtain t where "t \<in> set (matches (atLeast_times 3 (ch 10)) (b, s, c))"
    by (cases "matches (atLeast_times 3 (ch 10)) (b, s, c)") auto
  then obtain t1 t2 t3 where "t1 \<in> set (matches (ch 10) (b, s, c))"
      "t2 \<in> set (matches (ch 10) t1)" "t3 \<in> set (matches (ch 10) t2)"
    unfolding e set_matches_Seq by blast
  then have "s = 10 # fst (snd t1)" "fst (snd t1) = 10 # fst (snd t2)"
      "fst (snd t2) = 10 # fst (snd t3)"
    unfolding ch_def by (auto dest!: in_matches_Chr)
  then show ?thesis by simp
qed

lemma replaceAll_no_match:
  "(\<And>b' ys s'. s = ys @ s' \<Longrightarrow> matches r (b', s', Map.empty) = []) \<Longrightarrow>
     replaceAll r new b s = s"
proof (induction s arbitrary: b)
  case Nil
  from Nil[of "[]" "[]" b] show ?case by (subst replaceAll.simps) simp
next
  case (Cons x xs)
  have m: "matches r (b, x # xs, Map.empty) = []" by (rule Cons.prems[of "[]"]) simp
  have "replaceAll r new (x # b) xs = xs"
  proof (rule Cons.IH)
    fix b' ys s'
    assume "xs = ys @ s'"
    then have "x # xs = (x # ys) @ s'" by simp
    then show "matches r (b', s', Map.empty) = []" by (rule Cons.prems)
  qed
  with m show ?case by (subst replaceAll.simps) simp
qed

lemma pop_keywords_fix:
  "lines = [] \<or> \<not> isKeywordLine (trim (last lines)) \<Longrightarrow> pop_keywords lines = lines"
  by (subst pop_keywords.simps) auto

lemma isContentLine_nonempty: "isContentLine l \<Longrightarrow> l \<noteq> []"
  by (auto simp: isContentLine_def trim_def)

lemma cleanProvisionContent_trimmed: "trim (cleanProvisionContent x) = cleanProvisionContent x"
  by (simp add: cleanProvisionContent_def Let_def trim_idem)

lemma cleanProvisionContent_Nil: "cleanProvisionContent [] = []"
  by code_simp

lemma clean_fixpoint:
  assumes t: "trim y = y"
    and c: "\<forall>l \<in> set (split_on 10 y). isContentLine l"
    and k: "\<not> isKeywordLine (trim (last (split_on 10 y)))"
    and r: "\<not> test TRAILING_SECTION_REF y"
  shows "cleanProvisionContent y = y"
proof -
  from c have "filter isContentLine (split_on 10 y) = split_on 10 y" by simp
  moreover from k have "pop_keywords (split_on 10 y) = split_on 10 y"
    by (intro pop_keywords_fix) simp
  ultimately have j: "joinedLines y = y"
    by (simp add: joinedLines_def join_split_on t)
  from r have tr: "replace TRAILING_SECTION_REF [] y = y"
    by (simp add: replace_def test_def)
  have "replaceAll (atLeast_times 3 (ch 10)) [10, 10] [] y = y"
  proof (rule replaceAll_no_match)
    fix b' ys s'
    assume y: "y = ys @ s'"
    show "matches (atLeast_times 3 (ch 10)) (b', s', Map.empty) = []"
    proof (rule ccontr)
      assume "matches (atLeast_times 3 (ch 10)) (b', s', Map.empty) \<noteq> []"
      from NEWLINES3_prefix[OF this] obtain q where "s' = 10 # 10 # 10 # q" by blast
      with y have "y = ys @ 10 # 10 # (10 # q)" by simp
      moreover from c have "\<forall>l \<in> set (split_on 10 y). l \<noteq> []"
        using isContentLine_nonempty by blast
      ultimately show False using no_double_separator by blast
    qed
  qed
  with j tr t show ?thesis by (simp add: cleanProvisionContent_def)
qed

lemma split_on_no_separator: "l \<in> set (split_on d s) \<Longrightarrow> d \<notin> set l"
proof (induction s arbitrary: l)
  case Nil
  then show ?case by simp
next
  case (Cons x xs)
  obtain y ys where sp: "split_on d xs = y # ys"
    using split_on_nonempty[of d xs] by (cases "split_on d xs") auto
  with Cons show ?case by (auto split: if_splits)
qed


lemma split_on_single: "d \<notin> set l \<Longrightarrow> split_on d l = [l]"
  by (induction l) auto


lemma split_on_append: "d \<notin> set l \<Longrightarrow> split_on d (l @ d # s) = l # split_on d s"
  by (induction l) auto


lemma split_on_join:
  "ls \<noteq> [] \<Longrightarrow> \<forall>l \<in> set ls. d \<notin> set l \<Longrightarrow> split_on d (join [d] ls) = ls"
proof (induction ls)
  case Nil
  then show ?case by simp
next
  case (Cons l rest)
  show ?case
  proof (cases "rest = []")
    case True
    with Cons.prems show ?thesis by (simp add: split_on_single)
  next
    case False
    with Cons show ?thesis by (simp add: join_Cons split_on_append)
  qed
qed


lemma pop_keywords_subset: "set (pop_keywords lines) \<subseteq> set lines"
proof (induction lines rule: pop_keywords.induct)
  case (1 lines)
  show ?case
  proof (cases "lines \<noteq> [] \<and> isKeywordLine (trim (last lines))")
    case True
    with 1 have "set (pop_keywords (butlast lines)) \<subseteq> set (butlast lines)" by blast
    moreover have "set (butlast lines) \<subseteq> set lines" by (auto dest: in_set_butlastD)
    moreover from True have "pop_keywords lines = pop_keywords (butlast lines)"
      by (subst pop_keywords.simps) simp
    ultimately show ?thesis by auto
  next
    case False
    then have "pop_keywords lines = lines" by (subst pop_keywords.simps) auto
    then show ?thesis by simp
  qed
qed


lemma pop_keywords_last:
  "pop_keywords lines = [] \<or> \<not> isKeywordLine (trim (last (pop_keywords lines)))"
proof (induction lines rule: pop_keywords.induct)
  case (1 lines)
  show ?case
  proof (cases "lines \<noteq> [] \<and> isKeywordLine (trim (last lines))")
    case True
    then have "pop_keywords lines = pop_keywords (butlast lines)"
      by (subst pop_keywords.simps) simp
    with 1 True show ?thesis by auto
  next
    case False
    then have "pop_keywords lines = lines" by (subst pop_keywords.simps) auto
    with False show ?thesis by auto
  qed
qed


lemma rtrim_Cons_nonspace:
  assumes "\<not> isSpace x"
  shows "\<exists>ys. rev (dropWhile isSpace (rev (x # xs))) = x # ys"
proof -
  have "dropWhile isSpace (rev xs @ [x]) = dropWhile isSpace (rev xs) @ [x]"
    using assms by (induction "rev xs" arbitrary: xs) (auto simp: dropWhile_append)
  then show ?thesis by simp
qed


lemma ltrim_rtrim_commute:
  "dropWhile isSpace (rev (dropWhile isSpace (rev m)))
     = rev (dropWhile isSpace (rev (dropWhile isSpace m)))"
proof (cases "dropWhile isSpace m")
  case Nil
  then have a: "\<forall>c \<in> set m. isSpace c" by (simp add: dropWhile_eq_Nil_conv)
  then have "\<forall>c \<in> set (rev m). isSpace c" by simp
  then have "dropWhile isSpace (rev m) = []" by (rule iffD2[OF dropWhile_eq_Nil_conv])
  then have r: "rev (dropWhile isSpace (rev m)) = []" by (simp only: rev.simps)
  show ?thesis unfolding Nil r by simp
next
  case (Cons y t)
  then have y: "\<not> isSpace y" by (metis hd_dropWhile list.sel(1) list.simps(3))
  let ?a = "takeWhile isSpace m"
  have m: "m = ?a @ y # t" using Cons by (metis takeWhile_dropWhile_id)
  have a: "\<forall>c \<in> set ?a. isSpace c" by (auto dest: set_takeWhileD)
  have "dropWhile isSpace (rev m) = dropWhile isSpace (rev (y # t) @ rev ?a)"
    by (subst m) simp
  also have "\<dots> = dropWhile isSpace (rev (y # t)) @ rev ?a"
    using y by (intro dropWhile_append1[of y]) auto
  finally have r: "rev (dropWhile isSpace (rev m)) = ?a @ rev (dropWhile isSpace (rev (y # t)))"
    by simp
  from rtrim_Cons_nonspace[OF y, of t] obtain ys
    where ys: "rev (dropWhile isSpace (rev (y # t))) = y # ys" by blast
  have "dropWhile isSpace (?a @ y # ys) = y # ys"
    using a y by (simp add: dropWhile_append3)
  with r ys show ?thesis unfolding Cons by simp
qed


lemma trim_ltrim: "trim (dropWhile isSpace l) = trim l"
  by (simp add: trim_def)


lemma trim_rtrim: "trim (rev (dropWhile isSpace (rev l))) = trim l"
  unfolding trim_def ltrim_rtrim_commute[of l] by simp


lemma trim_nonempty_iff: "trim l \<noteq> [] \<longleftrightarrow> (\<exists>c \<in> set l. \<not> isSpace c)"
proof
  assume n: "trim l \<noteq> []"
  have "dropWhile isSpace l \<noteq> []"
  proof
    assume d: "dropWhile isSpace l = []"
    have "trim l = []" unfolding trim_def d by simp
    with n show False by contradiction
  qed
  then show "\<exists>c \<in> set l. \<not> isSpace c" by (simp add: dropWhile_eq_Nil_conv)
next
  assume "\<exists>c \<in> set l. \<not> isSpace c"
  then obtain y t where d: "dropWhile isSpace l = y # t"
    by (cases "dropWhile isSpace l") (auto simp: dropWhile_eq_Nil_conv)
  then have "\<not> isSpace y" by (metis hd_dropWhile list.sel(1) list.simps(3))
  from trim_Cons_nonspace[OF this, of t] obtain ys where "trim (y # t) = y # ys" by blast
  moreover have "trim (y # t) = trim l" using d trim_ltrim[of l] by simp
  ultimately show "trim l \<noteq> []" by simp
qed


lemma join_Cons_tail: "\<exists>t. \<forall>l. join sep (l # rest) = l @ t"
  by (cases rest) auto


lemma join_snoc_init: "\<exists>p. \<forall>l. join sep (init @ [l]) = p @ l"
proof (induction init)
  case Nil
  then show ?case by simp
next
  case (Cons a init)
  then obtain p where p: "\<forall>l. join sep (init @ [l]) = p @ l" by blast
  have "\<forall>l. join sep ((a # init) @ [l]) = (a @ sep @ p) @ l"
  proof
    fix l
    have "init @ [l] \<noteq> []" by simp
    then have "join sep (a # (init @ [l])) = a @ sep @ join sep (init @ [l])"
      by (rule join_Cons)
    with p show "join sep ((a # init) @ [l]) = (a @ sep @ p) @ l" by simp
  qed
  then show ?case by blast
qed


lemma ltrim_join:
  assumes "\<exists>c \<in> set l. \<not> isSpace c"
  shows "dropWhile isSpace (join sep (l # rest)) = join sep (dropWhile isSpace l # rest)"
proof -
  from join_Cons_tail[of sep rest] obtain t where t: "\<forall>l. join sep (l # rest) = l @ t" by blast
  from assms obtain c where "c \<in> set l" "\<not> isSpace c" by blast
  then have "dropWhile isSpace (l @ t) = dropWhile isSpace l @ t" by (rule dropWhile_append1)
  with t show ?thesis by simp
qed


lemma rtrim_join:
  assumes "\<exists>c \<in> set l. \<not> isSpace c"
  shows "rev (dropWhile isSpace (rev (join sep (init @ [l]))))
           = join sep (init @ [rev (dropWhile isSpace (rev l))])"
proof -
  from join_snoc_init[of sep init] obtain p where p: "\<forall>l. join sep (init @ [l]) = p @ l"
    by blast
  from assms obtain c where "c \<in> set (rev l)" "\<not> isSpace c" by auto
  then have "dropWhile isSpace (rev l @ rev p) = dropWhile isSpace (rev l) @ rev p"
    by (rule dropWhile_append1)
  with p show ?thesis by simp
qed


lemma trim_join:
  assumes ne: "ls \<noteq> []" and c: "\<forall>l \<in> set ls. trim l \<noteq> [] \<and> d \<notin> set l"
  shows "\<exists>ls'. trim (join sep ls) = join sep ls' \<and> map trim ls' = map trim ls
           \<and> (\<forall>l \<in> set ls'. d \<notin> set l) \<and> ls' \<noteq> []"
proof -
  from ne obtain l rest where ls: "ls = l # rest" by (cases ls) auto
  let ?l1 = "dropWhile isSpace l"
  let ?ls1 = "?l1 # rest"
  from c ls have "\<exists>c \<in> set l. \<not> isSpace c" by (simp add: trim_nonempty_iff)
  then have 1: "dropWhile isSpace (join sep ls) = join sep ?ls1"
    unfolding ls by (rule ltrim_join)
  have m1: "map trim ?ls1 = map trim ls" by (simp add: ls trim_ltrim)
  have d1: "\<forall>l \<in> set ?ls1. d \<notin> set l" using c ls by (auto dest: set_dropWhileD)
  obtain init m where im: "?ls1 = init @ [m]"
    by (metis append_butlast_last_id list.simps(3))
  let ?m' = "rev (dropWhile isSpace (rev m))"
  let ?ls' = "init @ [?m']"
  have "trim m \<in> set (map trim ?ls1)" by (simp add: im)
  with m1 c have "trim m \<noteq> []" by auto
  then have "\<exists>c \<in> set m. \<not> isSpace c" by (simp add: trim_nonempty_iff)
  then have 2: "rev (dropWhile isSpace (rev (join sep (init @ [m])))) = join sep ?ls'"
    by (rule rtrim_join)
  have "trim (join sep ls) = join sep ?ls'"
    unfolding trim_def 1 im 2 ..
  moreover have "map trim ?ls' = map trim ls"
    using m1 unfolding im by (simp add: trim_rtrim)
  moreover have "\<forall>l \<in> set ?ls'. d \<notin> set l"
  proof -
    have "d \<notin> set m" using d1 unfolding im by simp
    then have "d \<notin> set ?m'" by (auto dest: set_dropWhileD)
    moreover have "\<forall>l \<in> set init. d \<notin> set l" using d1 unfolding im by simp
    ultimately show ?thesis by simp
  qed
  ultimately show ?thesis by blast
qed


lemma isContentLine_trim_cong: "trim l' = trim l \<Longrightarrow> isContentLine l' = isContentLine l"
  by (simp add: isContentLine_def)

lemma isContentLine_trim_nonempty: "isContentLine l \<Longrightarrow> trim l \<noteq> []"
  by (cases "trim l = []") (simp_all add: isContentLine_def)

lemma joinedLines_fixpoint_conditions:
  "joinedLines x = [] \<or>
     ((\<forall>l \<in> set (split_on 10 (joinedLines x)). isContentLine l)
      \<and> \<not> isKeywordLine (trim (last (split_on 10 (joinedLines x)))))"
proof -
  define ls where "ls = pop_keywords (filter isContentLine (split_on 10 x))"
  have jl: "joinedLines x = trim (join [10] ls)"
    by (simp add: joinedLines_def ls_def)
  show ?thesis
  proof (cases "ls = []")
    case True
    have "trim [] = []" by (simp add: trim_def)
    with True jl have "joinedLines x = []" by simp
    then show ?thesis by simp
  next
    case False
    have sub: "set ls \<subseteq> set (filter isContentLine (split_on 10 x))"
      unfolding ls_def by (rule pop_keywords_subset)
    then have cl: "\<forall>l \<in> set ls. isContentLine l" by auto
    have h: "\<forall>l \<in> set ls. trim l \<noteq> [] \<and> 10 \<notin> set l"
    proof
      fix l assume l: "l \<in> set ls"
      with cl have "trim l \<noteq> []" by (simp add: isContentLine_trim_nonempty)
      moreover from l sub have "l \<in> set (split_on 10 x)" by auto
      then have "10 \<notin> set l" by (rule split_on_no_separator)
      ultimately show "trim l \<noteq> [] \<and> 10 \<notin> set l" by simp
    qed
    have "\<exists>ls'. trim (join [10] ls) = join [10] ls' \<and> map trim ls' = map trim ls
           \<and> (\<forall>l \<in> set ls'. 10 \<notin> set l) \<and> ls' \<noteq> []"
      using False h by (rule trim_join)
    then obtain ls' where j: "trim (join [10] ls) = join [10] ls'"
        and m: "map trim ls' = map trim ls"
        and d: "\<forall>l \<in> set ls'. 10 \<notin> set l" and n: "ls' \<noteq> []"
      by (elim exE conjE)
    have "split_on 10 (join [10] ls') = ls'" using n d by (rule split_on_join)
    then have sp: "split_on 10 (joinedLines x) = ls'" unfolding jl j .
    have c': "\<forall>l \<in> set ls'. isContentLine l"
    proof
      fix l' assume "l' \<in> set ls'"
      then have "trim l' \<in> set (map trim ls')" by simp
      then have "trim l' \<in> set (map trim ls)" unfolding m .
      then obtain l where l: "l \<in> set ls" "trim l' = trim l" by auto
      from l(1) cl have "isContentLine l" by simp
      with isContentLine_trim_cong[OF l(2)] show "isContentLine l'" by simp
    qed
    have "trim (last ls') = last (map trim ls')" using n by (simp add: last_map)
    also have "\<dots> = last (map trim ls)" unfolding m ..
    also have "\<dots> = trim (last ls)" using False by (simp add: last_map)
    finally have tl: "trim (last ls') = trim (last ls)" .
    have "ls = [] \<or> \<not> isKeywordLine (trim (last ls))"
      unfolding ls_def by (rule pop_keywords_last)
    with False tl have k': "\<not> isKeywordLine (trim (last ls'))" by simp
    from c' k' show ?thesis unfolding sp by simp
  qed
qed

lemma cleanProvisionContent_without_trailing_ref:
  assumes "\<not> test TRAILING_SECTION_REF (joinedLines x)"
  shows "cleanProvisionContent x = joinedLines x"
proof -
  define z where "z = joinedLines x"
  have t: "trim z = z" by (simp add: z_def joinedLines_def trim_idem)
  from assms have tr: "replace TRAILING_SECTION_REF [] z = z"
    by (simp add: replace_def test_def z_def)
  have nl: "replaceAll (atLeast_times 3 (ch 10)) [10, 10] [] z = z"
  proof (cases "z = []")
    case True
    have "replaceAll (atLeast_times 3 (ch 10)) [10, 10] [] [] = []" by code_simp
    with True show ?thesis by simp
  next
    case False
    with joinedLines_fixpoint_conditions[of x]
    have "\<forall>l \<in> set (split_on 10 z). isContentLine l" by (simp add: z_def)
    then have ne: "\<forall>l \<in> set (split_on 10 z). l \<noteq> []"
      using isContentLine_nonempty by blast
    show ?thesis
    proof (rule replaceAll_no_match)
      fix b' ys s'
      assume y: "z = ys @ s'"
      show "matches (atLeast_times 3 (ch 10)) (b', s', Map.empty) = []"
      proof (rule ccontr)
        assume "matches (atLeast_times 3 (ch 10)) (b', s', Map.empty) \<noteq> []"
        from NEWLINES3_prefix[OF this] obtain q where "s' = 10 # 10 # 10 # q" by blast
        with y have "z = ys @ 10 # 10 # (10 # q)" by simp
        with no_double_separator[OF ne] show False by blast
      qed
    qed
  qed
  have "cleanProvisionContent x = trim (replaceAll (atLeast_times 3 (ch 10)) [10, 10] []
      (replace TRAILING_SECTION_REF [] z))"
    by (simp add: cleanProvisionContent_def z_def)
  also have "\<dots> = z" unfolding tr nl t ..
  finally show ?thesis unfolding z_def .
qed

text \<open>
  C2, as amended. Cleaning is idempotent on every input in which the fix-up of the
  first cleaning finds no trailing section reference to strip, and, more generally,
  whenever the cleaned text has no line that the first pass deletes, does not end in a
  keyword line and has no trailing section reference: such a text is returned as it
  is.
\<close>

theorem cleanProvisionContent_idempotent_when_stable:
  assumes "\<not> test TRAILING_SECTION_REF (joinedLines x)
     \<or> ((\<forall>l \<in> set (split_on 10 (cleanProvisionContent x)). isContentLine l)
        \<and> \<not> isKeywordLine (trim (last (split_on 10 (cleanProvisionContent x))))
        \<and> \<not> test TRAILING_SECTION_REF (cleanProvisionContent x))"
  shows "cleanProvisionContent (cleanProvisionContent x) = cleanProvisionContent x"
  using assms
proof
  assume a: "\<not> test TRAILING_SECTION_REF (joinedLines x)"
  define z where "z = joinedLines x"
  have t: "trim z = z" by (simp add: z_def joinedLines_def trim_idem)
  have r: "\<not> test TRAILING_SECTION_REF z" using a by (simp add: z_def)
  have "cleanProvisionContent z = z"
  proof (cases "z = []")
    case True
    then show ?thesis by (simp add: cleanProvisionContent_Nil)
  next
    case False
    with joinedLines_fixpoint_conditions[of x]
    have c: "\<forall>l \<in> set (split_on 10 z). isContentLine l"
      and k: "\<not> isKeywordLine (trim (last (split_on 10 z)))"
      by (simp_all add: z_def)
    from t c k r show ?thesis by (rule clean_fixpoint)
  qed
  moreover have "cleanProvisionContent x = z"
    unfolding z_def using a by (rule cleanProvisionContent_without_trailing_ref)
  ultimately show ?thesis by simp
next
  assume "(\<forall>l \<in> set (split_on 10 (cleanProvisionContent x)). isContentLine l)
        \<and> \<not> isKeywordLine (trim (last (split_on 10 (cleanProvisionContent x))))
        \<and> \<not> test TRAILING_SECTION_REF (cleanProvisionContent x)"
  with cleanProvisionContent_trimmed[of x] show ?thesis
    by (intro clean_fixpoint) simp_all
qed

text \<open>
  The claim as stated fails on a text with two trailing section references: each
  cleaning strips one.
\<close>

theorem cleanProvisionContent_idempotent_counterexample:
  "cleanProvisionContent (js ''Es gilt '' @ [SECT] @ js '' 1 '' @ [SECT] @ js '' 2.'')
     = js ''Es gilt '' @ [SECT] @ js '' 1''
   \<and> cleanProvisionContent (js ''Es gilt '' @ [SECT] @ js '' 1'') = js ''Es gilt''
   \<and> cleanProvisionContent
         (cleanProvisionContent (js ''Es gilt '' @ [SECT] @ js '' 1 '' @ [SECT] @ js '' 2.''))
       \<noteq> cleanProvisionContent (js ''Es gilt '' @ [SECT] @ js '' 1 '' @ [SECT] @ js '' 2.'')"
proof -
  have a: "cleanProvisionContent (js ''Es gilt '' @ [SECT] @ js '' 1 '' @ [SECT] @ js '' 2.'')
     = js ''Es gilt '' @ [SECT] @ js '' 1''"
    by code_simp
  have b: "cleanProvisionContent (js ''Es gilt '' @ [SECT] @ js '' 1'') = js ''Es gilt''"
    by code_simp
  have c: "js ''Es gilt'' \<noteq> js ''Es gilt '' @ [SECT] @ js '' 1''" by (simp add: js_def)
  from a b c show ?thesis by simp
qed

theorem cleanProvisionContent_idempotent_when_stable_witness:
  "cleanProvisionContent (cleanProvisionContent
      (js ''BGBl. Nr. 1/2000'' @ [10] @ js ''Dieses Gesetz regelt die Verwaltung.'' @ [10]
       @ js ''Verwaltung, Organisation, Recht''))
     = js ''Dieses Gesetz regelt die Verwaltung.''
   \<and> cleanProvisionContent (cleanProvisionContent (js ''Es gilt. '' @ [SECT] @ js '' 1.''))
     = js ''Es gilt.''"
proof -
  let ?x = "js ''BGBl. Nr. 1/2000'' @ [10] @ js ''Dieses Gesetz regelt die Verwaltung.'' @ [10]
       @ js ''Verwaltung, Organisation, Recht''"
  let ?y = "js ''Es gilt. '' @ [SECT] @ js '' 1.''"
  have a: "\<not> test TRAILING_SECTION_REF (joinedLines ?x)" by code_simp
  have b: "cleanProvisionContent ?x = js ''Dieses Gesetz regelt die Verwaltung.''" by code_simp
  have c: "cleanProvisionContent ?y = js ''Es gilt.''" by code_simp
  have d: "(\<forall>l \<in> set (split_on 10 (js ''Es gilt.'')). isContentLine l)
        \<and> \<not> isKeywordLine (trim (last (split_on 10 (js ''Es gilt.''))))
        \<and> \<not> test TRAILING_SECTION_REF (js ''Es gilt.'')"
    by code_simp
  from cleanProvisionContent_idempotent_when_stable[of ?x] a b
  have 1: "cleanProvisionContent (cleanProvisionContent ?x)
      = js ''Dieses Gesetz regelt die Verwaltung.''"
    by simp
  from cleanProvisionContent_idempotent_when_stable[of ?y] c d
  have 2: "cleanProvisionContent (cleanProvisionContent ?y) = js ''Es gilt.''"
    by simp
  from 1 2 show ?thesis by (rule conjI)
qed

section \<open>The parser: titles that end in a year\<close>









































































end
